theory Spec2Isabelle
  imports Complex_Main "HOL-Library.Multiset"
begin

section \<open>Errors\<close>

text \<open>
  Exceptions of the Python code are values.  \<open>StopIteration\<close> is what
  \<^verbatim>\<open>next(iter(d))\<close> raises on an empty dictionary; \<open>ServiceError\<close> stands for
  any exception raised inside an external collaborator (encoder, vector store,
  language model); \<open>ShapeError\<close> is numpy's \<^verbatim>\<open>ValueError\<close> on vectors of
  different lengths.  \<open>TypeError\<close> and \<open>AttributeError\<close> are raised when the code
  slices, iterates or calls \<^verbatim>\<open>.get\<close> on a \<^verbatim>\<open>None\<close> that it read from a
  stored document; \<open>OverflowError\<close> is \<^verbatim>\<open>int(x)\<close> on an infinite float;
  \<open>ValidationError\<close> is raised by a response model given a value of the wrong type.
\<close>

datatype error =
  StopIteration | ServiceError string | ShapeError | TypeError | AttributeError
  | OverflowError | ValidationError

text \<open>A computation that raised leaves the function; otherwise the next step runs.\<close>

definition bind_err :: "error + 'a \<Rightarrow> ('a \<Rightarrow> error + 'b) \<Rightarrow> error + 'b" where
  "bind_err m f = (case m of Inl err \<Rightarrow> Inl err | Inr x \<Rightarrow> f x)"

section \<open>core/cache.py: LRUCache\<close>

text \<open>
  \<^verbatim>\<open>self._cache\<close> is an \<^verbatim>\<open>OrderedDict\<close>: an association list, oldest entry
  first.  \<^verbatim>\<open>self._timestamps\<close> and \<^verbatim>\<open>self._ttls\<close> are plain dictionaries.
  \<^verbatim>\<open>time.time()\<close> is the argument \<open>now\<close> of each operation.  A miss is
  \<open>None\<close>.
\<close>

record 'v lru_cache =
  max_size :: int
  default_ttl :: "int option"
  cache :: "(string \<times> 'v) list"
  timestamps :: "string \<rightharpoonup> real"
  ttls :: "string \<rightharpoonup> int option"

definition LRUCache_init :: "int \<Rightarrow> int option \<Rightarrow> 'v lru_cache" where
  "LRUCache_init m d =
     \<lparr>max_size = m, default_ttl = d, cache = [], timestamps = Map.empty, ttls = Map.empty\<rparr>"

definition od_keys :: "(string \<times> 'v) list \<Rightarrow> string list" where
  "od_keys xs = map fst xs"

definition od_pop :: "(string \<times> 'v) list \<Rightarrow> string \<Rightarrow> (string \<times> 'v) list" where
  "od_pop xs k = filter (\<lambda>e. fst e \<noteq> k) xs"

definition od_move_to_end :: "(string \<times> 'v) list \<Rightarrow> string \<Rightarrow> (string \<times> 'v) list" where
  "od_move_to_end xs k = filter (\<lambda>e. fst e \<noteq> k) xs @ filter (\<lambda>e. fst e = k) xs"

definition od_assign :: "(string \<times> 'v) list \<Rightarrow> string \<Rightarrow> 'v \<Rightarrow> (string \<times> 'v) list" where
  "od_assign xs k v =
     (if k \<in> set (od_keys xs) then map (\<lambda>e. if fst e = k then (k, v) else e) xs
      else xs @ [(k, v)])"

definition LRUCache_remove :: "'v lru_cache \<Rightarrow> string \<Rightarrow> 'v lru_cache" where
  "LRUCache_remove c key =
     c\<lparr>cache := od_pop (cache c) key,
       timestamps := (timestamps c)(key := None),
       ttls := (ttls c)(key := None)\<rparr>"

definition LRUCache_get :: "'v lru_cache \<Rightarrow> real \<Rightarrow> string \<Rightarrow> 'v option \<times> 'v lru_cache" where
  "LRUCache_get c now key =
     (if key \<notin> set (od_keys (cache c)) then (None, c)
      else
        (let ttl = (case ttls c key of None \<Rightarrow> None | Some t \<Rightarrow> t);
             ts = (case timestamps c key of None \<Rightarrow> 0 | Some t \<Rightarrow> t)
         in if ttl \<noteq> None \<and> now - ts > real_of_int (the ttl)
            then (None, LRUCache_remove c key)
            else (map_of (cache c) key, c\<lparr>cache := od_move_to_end (cache c) key\<rparr>)))"

text \<open>
  The eviction loop of \<^verbatim>\<open>set\<close>:
  \<^verbatim>\<open>while len(self._cache) >= self.max_size: self._remove(next(iter(self._cache)))\<close>.
  With \<open>max_size \<le> 0\<close> it empties the dictionary and then raises
  \<^verbatim>\<open>StopIteration\<close>; the cache stays as the loop left it.
\<close>

function evict :: "'v lru_cache \<Rightarrow> error option \<times> 'v lru_cache" where
  "evict c =
     (if int (length (cache c)) \<ge> max_size c
      then (case cache c of
              [] \<Rightarrow> (Some StopIteration, c)
            | e # _ \<Rightarrow> evict (LRUCache_remove c (fst e)))
      else (None, c))"
  by pat_completeness auto
termination
proof (relation "measure (\<lambda>c. length (cache c))")
  show "wf (measure (\<lambda>c. length (cache c)))" by simp
next
  fix c :: "'v lru_cache" and e es
  assume "cache c = e # es"
  then have "length (od_pop (cache c) (fst e)) \<le> length es"
    by (simp add: od_pop_def le_imp_less_Suc)
  with \<open>cache c = e # es\<close>
  show "(LRUCache_remove c (fst e), c) \<in> measure (\<lambda>c. length (cache c))"
    by (simp add: LRUCache_remove_def)
qed

text \<open>\<^verbatim>\<open>ttl if ttl is not None else self.default_ttl\<close>\<close>

definition effective_ttl :: "'v lru_cache \<Rightarrow> int option \<Rightarrow> int option" where
  "effective_ttl c ttl = (if ttl \<noteq> None then ttl else default_ttl c)"

definition LRUCache_set ::
  "'v lru_cache \<Rightarrow> real \<Rightarrow> string \<Rightarrow> 'v \<Rightarrow> int option \<Rightarrow> error option \<times> 'v lru_cache" where
  "LRUCache_set c now key val ttl =
     (let c1 = (if key \<in> set (od_keys (cache c)) then LRUCache_remove c key else c);
          (err, c2) = evict c1
      in case err of
           Some e \<Rightarrow> (Some e, c2)
         | None \<Rightarrow>
             (None,
              c2\<lparr>cache := od_assign (cache c2) key val,
                 timestamps := (timestamps c2)(key \<mapsto> now),
                 ttls := (ttls c2)(key \<mapsto> effective_ttl c2 ttl)\<rparr>))"

definition LRUCache_clear :: "'v lru_cache \<Rightarrow> 'v lru_cache" where
  "LRUCache_clear c = c\<lparr>cache := [], timestamps := Map.empty, ttls := Map.empty\<rparr>"


section \<open>Numbers and strings of the Python code\<close>

text \<open>
  A Python float is an IEEE 754 double.  A finite double is modelled by the real number
  it denotes, and \<open>fl x\<close> is the double nearest to the real \<open>x\<close>: the mantissa has 53
  bits, a tie goes to the even mantissa, and below \<open>pow2 (-1022)\<close> the spacing stays
  \<open>pow2 (-1074)\<close>.  A decimal literal \<^verbatim>\<open>0.3\<close> of the code is \<open>fl (3 / 10)\<close>, a product
  \<^verbatim>\<open>a * b\<close> is \<open>fl (a * b)\<close>, a sum \<^verbatim>\<open>a + b\<close> is \<open>fl (a + b)\<close>; comparisons,
  \<^verbatim>\<open>min\<close> and \<^verbatim>\<open>max\<close> are exact.  A result of magnitude \<open>2 ^ 1024\<close> or more is
  infinite in the code; \<open>overflows\<close> tests for it where the code's behaviour depends on it.

  \<open>bit_length\<close> is \<^verbatim>\<open>int.bit_length\<close>; \<open>binary_exponent x\<close> is the \<open>e\<close> with
  \<open>pow2 e \<le> x < pow2 (e + 1)\<close> for a positive \<open>x\<close>.

  The selection of Stage 3 computes similarities with \<^verbatim>\<open>numpy\<close>, whose summation
  order is not fixed by the code; there the model calculates with the reals.
\<close>

fun bit_length :: "nat \<Rightarrow> nat" where
  "bit_length n = (if n = 0 then 0 else Suc (bit_length (n div 2)))"

declare bit_length.simps [simp del]

definition binary_exponent :: "real \<Rightarrow> int" where
  "binary_exponent x =
     (if 1 \<le> x then int (bit_length (nat \<lfloor>x\<rfloor>)) - 1
      else - int (bit_length (nat (\<lceil>1 / x\<rceil> - 1))))"

definition pow2 :: "int \<Rightarrow> real" where
  "pow2 k = (if 0 \<le> k then 2 ^ nat k else 1 / 2 ^ nat (- k))"

definition round_half_even :: "real \<Rightarrow> int" where
  "round_half_even y =
     (let f = \<lfloor>y\<rfloor>; d = y - real_of_int f
      in if d < 1 / 2 then f else if d > 1 / 2 then f + 1
         else if even f then f else f + 1)"

definition fl :: "real \<Rightarrow> real" where
  "fl x =
     (if x = 0 then 0
      else let e = max (binary_exponent \<bar>x\<bar>) (- 1022);
               q = pow2 (e - 52)
           in sgn x * (real_of_int (round_half_even (\<bar>x\<bar> / q)) * q))"

definition fmul :: "real \<Rightarrow> real \<Rightarrow> real" where
  "fmul a b = fl (a * b)"

definition fadd :: "real \<Rightarrow> real \<Rightarrow> real" where
  "fadd a b = fl (a + b)"


text \<open>
  \<^verbatim>\<open>round(x, n)\<close> rounds the value of \<open>x\<close> to \<open>n\<close> decimals, ties to the even
  neighbour: \<open>py_round n x\<close> is that decimal number and \<open>float_round n x\<close> the double the
  code gets.  \<^verbatim>\<open>int(x)\<close> truncates towards zero.
\<close>

definition py_round :: "nat \<Rightarrow> real \<Rightarrow> real" where
  "py_round n x =
     (let y = x * 10 ^ n; f = \<lfloor>y\<rfloor>; d = y - real_of_int f
      in real_of_int
           (if d < 1 / 2 then f else if d > 1 / 2 then f + 1
            else if even f then f else f + 1) / 10 ^ n)"

definition float_round :: "nat \<Rightarrow> real \<Rightarrow> real" where
  "float_round n x = fl (py_round n x)"


text \<open>
  Truthiness of an optional string (\<^verbatim>\<open>None\<close> and \<^verbatim>\<open>""\<close> are false), the
  \<^verbatim>\<open>a or b\<close> of Python on such values, and \<^verbatim>\<open>s.rstrip("s")\<close>.
\<close>

definition truthy :: "string option \<Rightarrow> bool" where
  "truthy s = (case s of None \<Rightarrow> False | Some t \<Rightarrow> t \<noteq> [])"

definition py_or :: "string option \<Rightarrow> string option \<Rightarrow> string option" where
  "py_or a b = (if truthy a then a else b)"


section \<open>Data model\<close>

text \<open>
  A payload is the dictionary stored with a point.  The model keeps the keys that
  \<^verbatim>\<open>nodes.py\<close> and \<^verbatim>\<open>workflow.py\<close> read.  A key is absent, present with the
  value \<^verbatim>\<open>None\<close> (the document schemas declare several fields optional, among them
  \<^verbatim>\<open>normalized_bridge\<close>), or present with a value of the type of the document
  schemas (a string, a list of strings; \<^verbatim>\<open>normalized_bridge\<close> a dictionary of
  lists).  \<open>dict_get\<close> is \<^verbatim>\<open>d.get(key)\<close>, \<open>has_key\<close> is \<^verbatim>\<open>key in d\<close>.
\<close>

datatype 'a field = Absent | Null | Value 'a

fun dict_get :: "'a field \<Rightarrow> 'a option" where
  "dict_get Absent = None"
| "dict_get Null = None"
| "dict_get (Value v) = Some v"

fun has_key :: "'a field \<Rightarrow> bool" where
  "has_key Absent = False"
| "has_key Null = True"
| "has_key (Value v) = True"

record normalized_bridge =
  genes :: "string list field"
  diseases :: "string list field"
  processes :: "string list field"
  pathways :: "string list field"
  bridge_keywords :: "string list field"

record payload =
  protein_name :: "string field"
  title :: "string field"
  caption :: "string field"
  pdb_id :: "string field"
  gene_names :: "string list field"
  function_text :: "string field"
  abstract :: "string field"
  description :: "string field"
  summary_field :: "string field"
  method_field :: "string field"
  uniprot_id :: "string field"
  pmid :: "string field"
  doi :: "string field"
  geo_id :: "string field"
  accession :: "string field"
  bridge :: "normalized_bridge field"

definition empty_payload :: payload where
  "empty_payload =
     \<lparr>protein_name = Absent, title = Absent, caption = Absent, pdb_id = Absent,
      gene_names = Absent, function_text = Absent, abstract = Absent, description = Absent,
      summary_field = Absent, method_field = Absent, uniprot_id = Absent, pmid = Absent,
      doi = Absent, geo_id = Absent, accession = Absent, bridge = Absent\<rparr>"

text \<open>
  A result item \<^verbatim>\<open>{id, score, payload}\<close>, with the keys that later stages add:
  \<^verbatim>\<open>collection\<close> (Stage 2), \<^verbatim>\<open>diversity_score\<close>, \<^verbatim>\<open>novelty_score\<close>,
  \<^verbatim>\<open>final_score\<close> and \<^verbatim>\<open>mmr_rank\<close> (Stage 3).
\<close>

record result_item =
  item_id :: string
  score :: real
  item_payload :: payload
  collection :: "string option"
  diversity_score :: "real option"
  novelty_score :: "real option"
  final_score :: "real option"
  mmr_rank :: "int option"

definition hit :: "string \<Rightarrow> real \<Rightarrow> payload \<Rightarrow> result_item" where
  "hit i s p =
     \<lparr>item_id = i, score = s, item_payload = p, collection = None, diversity_score = None,
      novelty_score = None, final_score = None, mmr_rank = None\<rparr>"

text \<open>
  A dictionary whose iteration order matters (results by collection) is an association
  list in insertion order; \<open>od_assign\<close> is \<^verbatim>\<open>d[k] = v\<close>, \<open>od_get\<close> is
  \<^verbatim>\<open>d.get(k, default)\<close>.
\<close>

type_synonym results_by_collection = "(string \<times> result_item list) list"

definition od_get :: "(string \<times> 'v) list \<Rightarrow> string \<Rightarrow> 'v \<Rightarrow> 'v" where
  "od_get d k dflt = (case map_of d k of None \<Rightarrow> dflt | Some v \<Rightarrow> v)"

text \<open>
  \<^verbatim>\<open>list(s)\<close> of a Python set \<open>s\<close> enumerates it in an order the language does not
  fix.  The enumeration is the parameter \<open>set_iter\<close>, applied to the elements in
  first-insertion order: \<open>py_set_list set_iter xs\<close> is \<^verbatim>\<open>list(set(xs))\<close>.
\<close>

definition py_set_list :: "(string list \<Rightarrow> string list) \<Rightarrow> string list \<Rightarrow> string list" where
  "py_set_list set_iter xs = set_iter (remdups xs)"

text \<open>\<^verbatim>\<open>list(set(xs) & set(ys))\<close>\<close>

definition py_set_inter :: "(string list \<Rightarrow> string list) \<Rightarrow> string list \<Rightarrow> string list \<Rightarrow> string list" where
  "py_set_inter set_iter xs ys = set_iter (filter (\<lambda>x. x \<in> set ys) (remdups xs))"

section \<open>graph/nodes.py: \<^verbatim>\<open>_build_graph\<close>\<close>

record graph_node =
  node_id :: string
  node_label :: string
  node_type :: string
  node_collection :: string
  node_score :: real
  node_size :: int

record edge_detail =
  rel_type :: string
  rel_strength :: real
  rel_items :: "string list"

record graph_edge =
  source :: string
  target :: string
  relation :: string
  strength :: real
  width :: int
  details :: "edge_detail list"

record graph_stats =
  total_candidates :: int
  filtered_by_score :: int
  nodes_included :: int
  edges_included :: int
  edges_filtered :: int

record neighbor_graph =
  nodes :: "graph_node list"
  edges :: "graph_edge list"
  stats :: graph_stats
  threshold_score :: real
  threshold_edge :: real






text \<open>
  One shared category of a pair of nodes: \<open>n\<close> shared entries contribute
  \<^verbatim>\<open>min(1.0, n * w)\<close>, the product of the floats \<open>n\<close> and \<open>w\<close>; the entry lists at most
  \<open>cap\<close> of the shared entries.
\<close>

definition category_strength :: "real \<Rightarrow> nat \<Rightarrow> real" where
  "category_strength w n = min 1 (fmul (fl (real n)) w)"

definition shared_category ::
  "(string list \<Rightarrow> string list) \<Rightarrow> string \<Rightarrow> real \<Rightarrow> nat \<Rightarrow> string list \<Rightarrow> string list
     \<Rightarrow> edge_detail list" where
  "shared_category set_iter name w cap xs ys =
     (let shared = filter (\<lambda>x. x \<in> set ys) (remdups xs)
      in if shared \<noteq> []
         then [\<lparr>rel_type = name, rel_strength = category_strength w (length shared),
                rel_items = take cap (set_iter shared)\<rparr>]
         else [])"


text \<open>The relations of a pair, from the six lists, with the weights of the code.\<close>

definition relations_of ::
  "(string list \<Rightarrow> string list) \<Rightarrow> string list \<Rightarrow> string list \<Rightarrow> string list \<Rightarrow> string list
     \<Rightarrow> string list \<Rightarrow> string list \<Rightarrow> edge_detail list" where
  "relations_of set_iter genes_i genes_j diseases_i diseases_j pathways_i pathways_j =
     shared_category set_iter ''shared_genes'' (fl (25 / 100)) 5 genes_i genes_j @
     shared_category set_iter ''shared_diseases'' (fl (3 / 10)) 3 diseases_i diseases_j @
     shared_category set_iter ''shared_pathways'' (fl (35 / 100)) 3 pathways_i pathways_j"


text \<open>
  \<^verbatim>\<open>total_strength\<close> starts at 0 and each relation's strength is added to it, in the
  order of the relations; \<^verbatim>\<open>final_strength = min(1.0, total_strength)\<close>.
\<close>

definition total_strength :: "edge_detail list \<Rightarrow> real" where
  "total_strength rels = foldl (\<lambda>t r. fadd t (rel_strength r)) 0 rels"

definition final_strength :: "edge_detail list \<Rightarrow> real" where
  "final_strength rels = min 1 (total_strength rels)"











section \<open>External collaborators\<close>

text \<open>
  The encoder, the vector store, the language model and the article reader are outside
  the core; the model takes them as functions that return a value or raise.  One request
  sees one behaviour of each: the same call gives the same answer.

  \<^item> \<open>encode_text\<close>, \<open>encode_sequence\<close>, \<open>encode_image\<close>, \<open>encode_structure\<close> stand for
    \<^verbatim>\<open>extract_vector(encoder.encode_X(x))\<close>: the flat list of numbers that
    \<^verbatim>\<open>extract_vector\<close> takes out of the \<open>(1, dim)\<close> array of the encoder.
  \<^item> \<open>encode_sparse\<close> is \<^verbatim>\<open>encoder.encode_sparse\<close>, whose result may be a list of
    dictionaries, one dictionary, or something else.
  \<^item> \<open>query_points\<close> is \<^verbatim>\<open>client.query_points\<close> of the vector store with a dense
    query (collection, vector, vector name, limit, filter); \<open>query_points_fused\<close> is
    the same call with the dense and sparse prefetch and rank fusion.
  \<^item> \<open>bridge_cross_modal\<close>, \<open>generate_design_candidates\<close>, \<open>generate_summary\<close> are the
    methods of the language-model client; \<open>process_article_input\<close> reads an article.
  \<^item> \<open>set_iter\<close> is the order in which Python enumerates a set (see \<open>py_set_list\<close>).
  \<^item> \<open>sha256_hex\<close> is \<^verbatim>\<open>hashlib.sha256(s.encode()).hexdigest()\<close>.
\<close>

record sparse_vec =
  indices :: "int list"
  sparse_values :: "real list"

datatype sparse_out = SparseList "sparse_vec list" | SparseDict sparse_vec | SparseOther

type_synonym filter_dict = "(string \<times> string list) option"

text \<open>
  One item of the metadata that \<^verbatim>\<open>extract_metadata_for_bridge\<close> builds: a dictionary
  with the keys \<^verbatim>\<open>score\<close> and \<^verbatim>\<open>collection\<close> and, depending on the payload, a
  name (which may be \<^verbatim>\<open>None\<close>) and the other keys.
\<close>

record bridge_item =
  md_score :: real
  md_collection :: string
  md_name :: "string field"
  md_genes :: "string list option"
  md_function :: "string option"
  md_abstract :: "string option"
  md_description :: "string option"
  md_diseases :: "string list option"
  md_pathways :: "string list option"

record bridge_filters =
  filter_genes :: "string list"
  filter_diseases :: "string list"
  filter_pathways :: "string list"

record bridge_output =
  queries :: "(string \<times> string) list"
  filters :: bridge_filters
  alignment_label :: "string option"
  interpretation_text :: "string option"

record candidate =
  cand_id :: "string option"
  cand_name :: "string option"
  cand_collection :: "string option"
  cand_justification :: "string option"
  cand_research_suggestion :: "string option"
  cand_confidence :: "string option"
  cand_confidence_icon :: "string option"
  cand_evidence_count :: "int option"

record env =
  encode_text :: "string \<Rightarrow> error + real list"
  encode_sparse :: "string \<Rightarrow> error + sparse_out"
  extract_concepts :: "string \<Rightarrow> error + (string \<times> real) list"
  encode_sequence :: "string \<Rightarrow> error + real list"
  encode_image :: "string \<Rightarrow> error + real list"
  encode_structure :: "string \<Rightarrow> error + real list"
  query_points :: "string \<Rightarrow> real list \<Rightarrow> string \<Rightarrow> int \<Rightarrow> filter_dict \<Rightarrow> error + result_item list"
  query_points_fused ::
    "string \<Rightarrow> real list \<Rightarrow> sparse_vec \<Rightarrow> string \<Rightarrow> string \<Rightarrow> int \<Rightarrow> filter_dict
       \<Rightarrow> error + result_item list"
  bridge_cross_modal :: "string option \<Rightarrow> bridge_item list \<Rightarrow> error + bridge_output"
  generate_design_candidates :: "string \<Rightarrow> result_item list \<Rightarrow> int \<Rightarrow> error + candidate list"
  generate_summary :: "string \<Rightarrow> results_by_collection \<Rightarrow> error + string"
  process_article_input :: "string \<Rightarrow> string \<Rightarrow> error + string"
  set_iter :: "string list \<Rightarrow> string list"
  sha256_hex :: "string \<Rightarrow> string"

section \<open>graph/nodes.py: \<^verbatim>\<open>MMR_LAMBDA\<close> and \<^verbatim>\<open>_apply_mmr\<close>\<close>

definition MMR_LAMBDA :: "string option \<rightharpoonup> real" where
  "MMR_LAMBDA =
     [Some ''aligned'' \<mapsto> 7 / 10, Some ''partial'' \<mapsto> 5 / 10, Some ''divergent'' \<mapsto> 3 / 10,
      None \<mapsto> 7 / 10]"

text \<open>\<^verbatim>\<open>MMR_LAMBDA.get(alignment, 0.7)\<close>\<close>

definition mmr_lambda_for :: "string option \<Rightarrow> real" where
  "mmr_lambda_for alignment = (case MMR_LAMBDA alignment of None \<Rightarrow> 7 / 10 | Some l \<Rightarrow> l)"

text \<open>
  \<^verbatim>\<open>payload.get("protein_name") or payload.get("title") or payload.get("caption", "")\<close>
\<close>

definition display_text :: "payload \<Rightarrow> string" where
  "display_text p =
     (case py_or (dict_get (protein_name p)) (py_or (dict_get (title p)) (dict_get (caption p))) of
        None \<Rightarrow> []
      | Some t \<Rightarrow> t)"

text \<open>
  The first loop: the name of every result that has one is encoded (its first 100
  characters) and the vector is kept under the result's id when it has more than 10
  components.  An exception of the encoder leaves the function.
\<close>

fun build_vectors ::
  "env \<Rightarrow> result_item list \<Rightarrow> (string \<rightharpoonup> real list) \<Rightarrow> error + (string \<rightharpoonup> real list)" where
  "build_vectors e [] vectors = Inr vectors"
| "build_vectors e (r # rs) vectors =
     (let text = display_text (item_payload r)
      in if text \<noteq> []
         then (case encode_text e (take 100 text) of
                 Inl err \<Rightarrow> Inl err
               | Inr vec \<Rightarrow>
                   build_vectors e rs
                     (if vec \<noteq> [] \<and> length vec > 10 then vectors(item_id r \<mapsto> vec) else vectors))
         else build_vectors e rs vectors)"

text \<open>
  \<^verbatim>\<open>np.dot(a, b) / (np.linalg.norm(a) * np.linalg.norm(b) + 1e-8)\<close>;
  \<^verbatim>\<open>np.dot\<close> raises on vectors of different lengths.
\<close>

definition dot :: "real list \<Rightarrow> real list \<Rightarrow> real" where
  "dot a b = sum_list (map (\<lambda>(x, y). x * y) (zip a b))"

definition norm2 :: "real list \<Rightarrow> real" where
  "norm2 a = sqrt (sum_list (map (\<lambda>x. x * x) a))"

definition cosine :: "real list \<Rightarrow> real list \<Rightarrow> error + real" where
  "cosine a b =
     (if length a \<noteq> length b then Inl ShapeError
      else Inr (dot a b / (norm2 a * norm2 b + 1 / 100000000)))"

text \<open>The loop over \<^verbatim>\<open>selected\<close> that computes \<^verbatim>\<open>max_sim\<close> for a candidate vector.\<close>

fun max_similarity ::
  "(string \<rightharpoonup> real list) \<Rightarrow> real list \<Rightarrow> result_item list \<Rightarrow> real \<Rightarrow> error + real" where
  "max_similarity vectors cv [] max_sim = Inr max_sim"
| "max_similarity vectors cv (sel # sels) max_sim =
     (case vectors (item_id sel) of
        None \<Rightarrow> max_similarity vectors cv sels max_sim
      | Some sv \<Rightarrow>
          (case cosine cv sv of
             Inl err \<Rightarrow> Inl err
           | Inr sim \<Rightarrow> max_similarity vectors cv sels (max max_sim sim)))"

definition candidate_max_sim ::
  "(string \<rightharpoonup> real list) \<Rightarrow> result_item list \<Rightarrow> result_item \<Rightarrow> error + real" where
  "candidate_max_sim vectors selected cand =
     (case vectors (item_id cand) of
        None \<Rightarrow> Inr 0
      | Some cv \<Rightarrow> max_similarity vectors cv selected 0)"

text \<open>
  The loop over \<^verbatim>\<open>enumerate(candidates)\<close>.  The running best is \<open>None\<close> while
  \<^verbatim>\<open>best_idx\<close> is \<open>-1\<close> and \<^verbatim>\<open>best_mmr\<close> is minus infinity, below every score;
  then it is \<^verbatim>\<open>(best_idx, best_mmr, best_div)\<close>.
\<close>

fun scan_candidates ::
  "(string \<rightharpoonup> real list) \<Rightarrow> real \<Rightarrow> result_item list \<Rightarrow> nat \<Rightarrow> result_item list
     \<Rightarrow> (nat \<times> real \<times> real) option \<Rightarrow> error + (nat \<times> real \<times> real) option" where
  "scan_candidates vectors mmr_lambda selected idx [] best = Inr best"
| "scan_candidates vectors mmr_lambda selected idx (cand # cands) best =
     (case candidate_max_sim vectors selected cand of
        Inl err \<Rightarrow> Inl err
      | Inr max_sim \<Rightarrow>
          (let rel = score cand;
               dv = 1 - max_sim;
               mmr = mmr_lambda * rel - (1 - mmr_lambda) * max_sim
           in scan_candidates vectors mmr_lambda selected (Suc idx) cands
                (case best of
                   None \<Rightarrow> Some (idx, mmr, dv)
                 | Some (best_idx, best_mmr, best_div) \<Rightarrow>
                     if mmr > best_mmr then Some (idx, mmr, dv) else best)))"

definition mark_first :: "result_item \<Rightarrow> result_item" where
  "mark_first r =
     r\<lparr>diversity_score := Some 1,
       novelty_score := Some (py_round 4 (score r)),
       final_score := Some (py_round 4 (score r))\<rparr>"

definition mark_chosen :: "result_item \<Rightarrow> real \<Rightarrow> real \<Rightarrow> result_item" where
  "mark_chosen r best_mmr best_div =
     r\<lparr>diversity_score := Some (py_round 4 best_div),
       novelty_score := Some (py_round 4 (score r * best_div)),
       final_score := Some (py_round 4 best_mmr)\<rparr>"

text \<open>\<^verbatim>\<open>candidates.pop(i)\<close>\<close>

definition pop_at :: "nat \<Rightarrow> 'a list \<Rightarrow> 'a list" where
  "pop_at i xs = take i xs @ drop (Suc i) xs"

text \<open>
  The \<^verbatim>\<open>while\<close> loop of the selection.  \<open>limit\<close> is
  \<^verbatim>\<open>min(target_k, len(results))\<close>.  Each round removes one candidate, which is why
  the loop ends: the index that the scan returns lies inside the candidate list.
\<close>

lemma scan_candidates_index:
  "scan_candidates vectors lam selected i cands best = Inr (Some (j, m, d)) \<Longrightarrow>
     (\<exists>m' d'. best = Some (j, m', d')) \<or> (i \<le> j \<and> j < i + length cands)"
proof (induction cands arbitrary: i best)
  case Nil
  then show ?case by simp
next
  case (Cons c cs)
  from Cons.prems obtain ms where ms: "candidate_max_sim vectors selected c = Inr ms"
    by (cases "candidate_max_sim vectors selected c") auto
  let ?best' = "(case best of
                   None \<Rightarrow> Some (i, lam * score c - (1 - lam) * ms, 1 - ms)
                 | Some (best_idx, best_mmr, best_div) \<Rightarrow>
                     if lam * score c - (1 - lam) * ms > best_mmr
                     then Some (i, lam * score c - (1 - lam) * ms, 1 - ms) else best)"
  from Cons.prems ms have "scan_candidates vectors lam selected (Suc i) cs ?best' = Inr (Some (j, m, d))"
    by (simp add: Let_def)
  from Cons.IH[OF this] show ?case
    by (auto split: option.splits if_splits)
qed

function mmr_loop ::
  "(string \<rightharpoonup> real list) \<Rightarrow> real \<Rightarrow> int \<Rightarrow> result_item list \<Rightarrow> result_item list
     \<Rightarrow> error + result_item list" where
  "mmr_loop vectors mmr_lambda limit selected candidates =
     (if int (length selected) < limit \<and> candidates \<noteq> []
      then (case scan_candidates vectors mmr_lambda selected 0 candidates None of
              Inl err \<Rightarrow> Inl err
            | Inr None \<Rightarrow> Inr selected
            | Inr (Some (best_idx, best_mmr, best_div)) \<Rightarrow>
                mmr_loop vectors mmr_lambda limit
                  (selected @ [mark_chosen (candidates ! best_idx) best_mmr best_div])
                  (pop_at best_idx candidates))
      else Inr selected)"
  by pat_completeness auto
termination
proof (relation "measure (\<lambda>(vectors, mmr_lambda, limit, selected, candidates). length candidates)")
  show "wf (measure (\<lambda>(vectors, mmr_lambda, limit, selected, candidates). length candidates))"
    by simp
next
  fix vectors :: "string \<rightharpoonup> real list" and mmr_lambda :: real and limit :: int
    and selected candidates :: "result_item list" and x2 x2a best_idx y best_mmr best_div
  assume "scan_candidates vectors mmr_lambda selected 0 candidates None = Inr x2"
    and "x2 = Some x2a" and "(best_idx, y) = x2a" and "(best_mmr, best_div) = y"
  then have "scan_candidates vectors mmr_lambda selected 0 candidates None =
      Inr (Some (best_idx, best_mmr, best_div))" by simp
  from scan_candidates_index[OF this] have "best_idx < length candidates" by simp
  then show "((vectors, mmr_lambda, limit,
          selected @ [mark_chosen (candidates ! best_idx) best_mmr best_div],
          pop_at best_idx candidates),
         vectors, mmr_lambda, limit, selected, candidates)
        \<in> measure (\<lambda>(vectors, mmr_lambda, limit, selected, candidates). length candidates)"
    by (simp add: pop_at_def)
qed

text \<open>
  \<^verbatim>\<open>_apply_mmr(results, mmr_lambda, target_k, encoder)\<close>.  The result is the selected
  list, or the exception of the encoder or of \<^verbatim>\<open>np.dot\<close>.
\<close>

definition apply_mmr :: "env \<Rightarrow> result_item list \<Rightarrow> real \<Rightarrow> int \<Rightarrow> error + result_item list" where
  "apply_mmr e results mmr_lambda target_k =
     (case results of
        [] \<Rightarrow> Inr []
      | first # rest \<Rightarrow>
          (case build_vectors e results Map.empty of
             Inl err \<Rightarrow> Inl err
           | Inr vectors \<Rightarrow>
               mmr_loop vectors mmr_lambda (min target_k (int (length results)))
                 [mark_first first] rest))"


text \<open>A result without the three scores that the selection writes.\<close>

definition unscored :: "result_item \<Rightarrow> result_item" where
  "unscored r = r\<lparr>diversity_score := None, novelty_score := None, final_score := None\<rparr>"

text \<open>
  What the selection needs from the encoder to return: the name of the result, when it
  has one, is encoded without an exception.
\<close>

definition name_encodes :: "env \<Rightarrow> result_item \<Rightarrow> bool" where
  "name_encodes e r =
     (display_text (item_payload r) = [] \<or>
      (case encode_text e (take 100 (display_text (item_payload r))) of
         Inl err \<Rightarrow> False | Inr v \<Rightarrow> True))"

text \<open>
  The vector that the first loop keeps for a result: the encoding of its name when the
  name is not empty and the encoding has more than 10 components.
\<close>

definition name_vector :: "env \<Rightarrow> result_item \<Rightarrow> real list option" where
  "name_vector e r =
     (let text = display_text (item_payload r)
      in if text \<noteq> []
         then (case encode_text e (take 100 text) of
                 Inl err \<Rightarrow> None
               | Inr vec \<Rightarrow> if vec \<noteq> [] \<and> length vec > 10 then Some vec else None)
         else None)"

text \<open>The encoder gives vectors of one size \<open>d\<close>.\<close>

definition fixed_dimension :: "env \<Rightarrow> nat \<Rightarrow> bool" where
  "fixed_dimension e d = (\<forall>t v. encode_text e t = Inr v \<longrightarrow> length v = d)"

section \<open>core/cache.py: MultiLevelCache\<close>

text \<open>
  Three caches and the hit and miss counters by level name.  One type of value serves
  the three levels (Python stores any object).
\<close>

record 'v multi_level_cache =
  embeddings :: "'v lru_cache"
  results_level :: "'v lru_cache"
  llm_level :: "'v lru_cache"
  hits :: "string \<rightharpoonup> int"
  misses :: "string \<rightharpoonup> int"

definition MultiLevelCache_init :: "'v multi_level_cache" where
  "MultiLevelCache_init =
     \<lparr>embeddings = LRUCache_init 10000 None,
      results_level = LRUCache_init 1000 (Some 3600),
      llm_level = LRUCache_init 500 None,
      hits = [''embeddings'' \<mapsto> 0, ''results'' \<mapsto> 0, ''llm'' \<mapsto> 0],
      misses = [''embeddings'' \<mapsto> 0, ''results'' \<mapsto> 0, ''llm'' \<mapsto> 0]\<rparr>"

text \<open>\<^verbatim>\<open>_get_cache(level)\<close>, and the write-back of the cache object it returned.\<close>

definition get_cache_level :: "'v multi_level_cache \<Rightarrow> string \<Rightarrow> 'v lru_cache" where
  "get_cache_level mc level =
     (if level = ''embeddings'' then embeddings mc
      else if level = ''results'' then results_level mc
      else if level = ''llm'' then llm_level mc
      else results_level mc)"

definition put_cache_level :: "'v multi_level_cache \<Rightarrow> string \<Rightarrow> 'v lru_cache \<Rightarrow> 'v multi_level_cache" where
  "put_cache_level mc level c =
     (if level = ''embeddings'' then mc\<lparr>embeddings := c\<rparr>
      else if level = ''results'' then mc\<lparr>results_level := c\<rparr>
      else if level = ''llm'' then mc\<lparr>llm_level := c\<rparr>
      else mc\<lparr>results_level := c\<rparr>)"

definition counter :: "(string \<rightharpoonup> int) \<Rightarrow> string \<Rightarrow> int" where
  "counter m level = (case m level of None \<Rightarrow> 0 | Some n \<Rightarrow> n)"

definition MultiLevelCache_get ::
  "'v multi_level_cache \<Rightarrow> real \<Rightarrow> string \<Rightarrow> string \<Rightarrow> 'v option \<times> 'v multi_level_cache" where
  "MultiLevelCache_get mc now key level =
     (let (val, c) = LRUCache_get (get_cache_level mc level) now key;
          mc1 = put_cache_level mc level c
      in (val,
          if val \<noteq> None then mc1\<lparr>hits := (hits mc1)(level \<mapsto> counter (hits mc1) level + 1)\<rparr>
          else mc1\<lparr>misses := (misses mc1)(level \<mapsto> counter (misses mc1) level + 1)\<rparr>))"

definition MultiLevelCache_set ::
  "'v multi_level_cache \<Rightarrow> real \<Rightarrow> string \<Rightarrow> 'v \<Rightarrow> string \<Rightarrow> int option
     \<Rightarrow> error option \<times> 'v multi_level_cache" where
  "MultiLevelCache_set mc now key val level ttl =
     (let (err, c) = LRUCache_set (get_cache_level mc level) now key val ttl
      in (err, put_cache_level mc level c))"

definition get_embedding ::
  "'v multi_level_cache \<Rightarrow> real \<Rightarrow> string \<Rightarrow> 'v option \<times> 'v multi_level_cache" where
  "get_embedding mc now content_hash = MultiLevelCache_get mc now (''emb:'' @ content_hash) ''embeddings''"

definition set_embedding ::
  "'v multi_level_cache \<Rightarrow> real \<Rightarrow> string \<Rightarrow> 'v \<Rightarrow> error option \<times> 'v multi_level_cache" where
  "set_embedding mc now content_hash val =
     MultiLevelCache_set mc now (''emb:'' @ content_hash) val ''embeddings'' None"

section \<open>graph/state.py: the pipeline state\<close>

text \<open>
  The value that Stage 1 stores in the embeddings cache: \<^verbatim>\<open>{"vector": ...}\<close>, and for
  text also \<^verbatim>\<open>"sparse"\<close> and \<^verbatim>\<open>"concepts"\<close>.
\<close>

record emb_entry =
  emb_vector :: "real list"
  emb_sparse :: "sparse_vec option"
  emb_concepts :: "(string \<times> real) list option"

datatype primary = NoPrimary | OnePrimary string | ManyPrimary "string list"

record evidence_item =
  ev_confidence :: real
  ev_links :: "(string \<times> string) list"
  ev_collection :: string

record request =
  input_text :: "string option"
  input_sequence :: "string option"
  input_image_path :: "string option"
  input_structure_path :: "string option"
  top_k :: int
  include_graph :: bool
  include_evidence :: bool
  include_summary :: bool
  include_design_candidates :: bool
  filter_by_genes :: bool

record graph_state = request +
  input_type :: string
  search_case :: int
  has_text :: bool
  has_modal :: bool
  primary_modality :: primary
  modalities :: "string list"
  vectors :: "string \<rightharpoonup> real list"
  sparse_vectors :: "string \<rightharpoonup> sparse_vec"
  concepts :: "(string \<times> real) list"
  cache_hits :: "string \<rightharpoonup> bool"
  phase1_results :: results_by_collection
  phase1_metadata :: "bridge_item list"
  bridge_out :: "bridge_output option"
  phase3_results :: results_by_collection
  all_results :: results_by_collection
  search_strategy :: string
  alignment :: "string option"
  reranked_results :: results_by_collection
  design_candidates :: "candidate list"
  summary :: string
  interpretation_field :: "string option"
  evidence :: "(string \<times> evidence_item) list"
  neighbor :: "neighbor_graph option"

definition create_initial_state :: "request \<Rightarrow> graph_state" where
  "create_initial_state rq =
     \<lparr>input_text = input_text rq, input_sequence = input_sequence rq,
      input_image_path = input_image_path rq, input_structure_path = input_structure_path rq,
      top_k = top_k rq, include_graph = include_graph rq,
      include_evidence = include_evidence rq, include_summary = include_summary rq,
      include_design_candidates = include_design_candidates rq,
      filter_by_genes = filter_by_genes rq,
      input_type = ''unknown'', search_case = 1, has_text = False, has_modal = False,
      primary_modality = NoPrimary, modalities = [], vectors = Map.empty,
      sparse_vectors = Map.empty, concepts = [], cache_hits = Map.empty,
      phase1_results = [], phase1_metadata = [], bridge_out = None, phase3_results = [],
      all_results = [], search_strategy = ''CAS_1'', alignment = None,
      reranked_results = [], design_candidates = [], summary = [], interpretation_field = None,
      evidence = [], neighbor = None\<rparr>"

section \<open>graph/nodes.py: \<^verbatim>\<open>node_encode\<close>\<close>

text \<open>
  \<^verbatim>\<open>bool(s and s.strip())\<close>: the string has a character that is not white space.
  \<^verbatim>\<open>bool(s)\<close> for an optional string is \<open>truthy\<close>.
\<close>

definition is_space :: "char \<Rightarrow> bool" where
  "is_space c = (c \<in> set [CHR '' '', CHR 0x09, CHR 0x0A, CHR 0x0B, CHR 0x0C, CHR 0x0D,
                           CHR 0x1C, CHR 0x1D, CHR 0x1E, CHR 0x1F, CHR 0x85, CHR 0xA0])"

definition nonblank :: "string option \<Rightarrow> bool" where
  "nonblank s = (case s of None \<Rightarrow> False | Some t \<Rightarrow> \<exists>c \<in> set t. \<not> is_space c)"

definition py_str :: "string option \<Rightarrow> string" where
  "py_str s = (case s of None \<Rightarrow> [] | Some t \<Rightarrow> t)"

text \<open>\<^verbatim>\<open>hashlib.sha256(s.encode()).hexdigest()[:16]\<close>\<close>

definition hash16 :: "env \<Rightarrow> string \<Rightarrow> string" where
  "hash16 e s = take 16 (sha256_hex e s)"

definition empty_sparse :: sparse_vec where
  "empty_sparse = \<lparr>indices = [], sparse_values = []\<rparr>"

text \<open>
  The sparse encoding of the text, inside its \<^verbatim>\<open>try\<close>: the first element of a
  non-empty list, a dictionary as it is, and the empty sparse vector otherwise and on
  an exception.
\<close>

definition text_sparse_of :: "env \<Rightarrow> string \<Rightarrow> sparse_vec" where
  "text_sparse_of e text =
     (case encode_sparse e text of
        Inl err \<Rightarrow> empty_sparse
      | Inr (SparseList []) \<Rightarrow> empty_sparse
      | Inr (SparseList (x # xs)) \<Rightarrow> x
      | Inr (SparseDict d) \<Rightarrow> d
      | Inr SparseOther \<Rightarrow> empty_sparse)"

definition text_concepts_of :: "env \<Rightarrow> string \<Rightarrow> (string \<times> real) list" where
  "text_concepts_of e text = (case extract_concepts e text of Inl err \<Rightarrow> [] | Inr c \<Rightarrow> c)"

text \<open>
  The four encoding blocks.  Each takes the state and the process-wide cache and gives
  the state, or the exception that leaves \<^verbatim>\<open>node_encode\<close>, and the cache.  The
  text and sequence blocks have no \<^verbatim>\<open>try\<close> around the encoder call; the image and
  structure blocks have one.
\<close>

definition encode_text_block ::
  "env \<Rightarrow> real \<Rightarrow> emb_entry multi_level_cache \<Rightarrow> graph_state \<Rightarrow> string
     \<Rightarrow> (error + graph_state) \<times> emb_entry multi_level_cache" where
  "encode_text_block e now mc st text =
     (let cache_key = ''text:'' @ hash16 e text;
          (cached, mc1) = get_embedding mc now cache_key
      in case cached of
           Some entry \<Rightarrow>
             (Inr (st\<lparr>vectors := (vectors st)(''text'' \<mapsto> emb_vector entry),
                      sparse_vectors := (sparse_vectors st)
                        (''text_sparse'' \<mapsto>
                           (case emb_sparse entry of None \<Rightarrow> empty_sparse | Some sp \<Rightarrow> sp)),
                      concepts := (case emb_concepts entry of None \<Rightarrow> [] | Some c \<Rightarrow> c),
                      cache_hits := (cache_hits st)(''text'' \<mapsto> True)\<rparr>), mc1)
         | None \<Rightarrow>
             (case encode_text e text of
                Inl err \<Rightarrow> (Inl err, mc1)
              | Inr text_vec \<Rightarrow>
                  (let sp = text_sparse_of e text;
                       cs = text_concepts_of e text;
                       (err, mc2) = set_embedding mc1 now cache_key
                          \<lparr>emb_vector = text_vec, emb_sparse = Some sp, emb_concepts = Some cs\<rparr>
                   in case err of
                        Some x \<Rightarrow> (Inl x, mc2)
                      | None \<Rightarrow>
                          (Inr (st\<lparr>vectors := (vectors st)(''text'' \<mapsto> text_vec),
                                   sparse_vectors := (sparse_vectors st)(''text_sparse'' \<mapsto> sp),
                                   concepts := cs,
                                   cache_hits := (cache_hits st)(''text'' \<mapsto> False)\<rparr>), mc2))))"

definition encode_sequence_block ::
  "env \<Rightarrow> real \<Rightarrow> emb_entry multi_level_cache \<Rightarrow> graph_state \<Rightarrow> string
     \<Rightarrow> (error + graph_state) \<times> emb_entry multi_level_cache" where
  "encode_sequence_block e now mc st seq =
     (let cache_key = ''seq:'' @ hash16 e (take 100 seq);
          (cached, mc1) = get_embedding mc now cache_key
      in case cached of
           Some entry \<Rightarrow>
             (Inr (st\<lparr>vectors := (vectors st)(''sequence'' \<mapsto> emb_vector entry),
                      cache_hits := (cache_hits st)(''sequence'' \<mapsto> True)\<rparr>), mc1)
         | None \<Rightarrow>
             (case encode_sequence e seq of
                Inl err \<Rightarrow> (Inl err, mc1)
              | Inr seq_vec \<Rightarrow>
                  (let (err, mc2) = set_embedding mc1 now cache_key
                          \<lparr>emb_vector = seq_vec, emb_sparse = None, emb_concepts = None\<rparr>
                   in case err of
                        Some x \<Rightarrow> (Inl x, mc2)
                      | None \<Rightarrow>
                          (Inr (st\<lparr>vectors := (vectors st)(''sequence'' \<mapsto> seq_vec),
                                   cache_hits := (cache_hits st)(''sequence'' \<mapsto> False)\<rparr>), mc2))))"

text \<open>
  The image and structure blocks differ in the key prefix, the encoder and the name of
  the vector only.  Inside the \<^verbatim>\<open>try\<close> the vector is stored in \<^verbatim>\<open>vectors\<close>
  before the cache is written.
\<close>

definition encode_file_block ::
  "string \<Rightarrow> string \<Rightarrow> (string \<Rightarrow> error + real list) \<Rightarrow> env \<Rightarrow> real
     \<Rightarrow> emb_entry multi_level_cache \<Rightarrow> graph_state \<Rightarrow> string
     \<Rightarrow> graph_state \<times> emb_entry multi_level_cache" where
  "encode_file_block prefix name enc e now mc st path =
     (let cache_key = prefix @ hash16 e path;
          (cached, mc1) = get_embedding mc now cache_key
      in case cached of
           Some entry \<Rightarrow>
             (st\<lparr>vectors := (vectors st)(name \<mapsto> emb_vector entry),
                 cache_hits := (cache_hits st)(name \<mapsto> True)\<rparr>, mc1)
         | None \<Rightarrow>
             (case enc path of
                Inl err \<Rightarrow> (st\<lparr>cache_hits := (cache_hits st)(name \<mapsto> False)\<rparr>, mc1)
              | Inr vec \<Rightarrow>
                  (let (err, mc2) = set_embedding mc1 now cache_key
                          \<lparr>emb_vector = vec, emb_sparse = None, emb_concepts = None\<rparr>
                   in (st\<lparr>vectors := (vectors st)(name \<mapsto> vec),
                          cache_hits := (cache_hits st)(name \<mapsto> False)\<rparr>, mc2))))"

definition encode_image_block ::
  "env \<Rightarrow> real \<Rightarrow> emb_entry multi_level_cache \<Rightarrow> graph_state \<Rightarrow> string
     \<Rightarrow> graph_state \<times> emb_entry multi_level_cache" where
  "encode_image_block e = encode_file_block ''img:'' ''image'' (encode_image e) e"

definition encode_structure_block ::
  "env \<Rightarrow> real \<Rightarrow> emb_entry multi_level_cache \<Rightarrow> graph_state \<Rightarrow> string
     \<Rightarrow> graph_state \<times> emb_entry multi_level_cache" where
  "encode_structure_block e = encode_file_block ''struct:'' ''structure'' (encode_structure e) e"

text \<open>\<^verbatim>\<open>"_".join(xs)\<close>\<close>

fun join_underscore :: "string list \<Rightarrow> string" where
  "join_underscore [] = []"
| "join_underscore [x] = x"
| "join_underscore (x # y # ys) = x @ ''_'' @ join_underscore (y # ys)"

text \<open>
  The modality flags, and the classification into input type, search case and primary
  modality.  \<^verbatim>\<open>modalities\<close> is built in the order image, sequence, structure, which
  is alphabetical, so \<^verbatim>\<open>sorted(modalities)\<close> is the list itself.
\<close>

definition detect_has_text :: "request \<Rightarrow> bool" where
  "detect_has_text rq = nonblank (request.input_text rq)"

definition detect_has_sequence :: "request \<Rightarrow> bool" where
  "detect_has_sequence rq =
     (case request.input_sequence rq of None \<Rightarrow> False | Some s \<Rightarrow> length s > 10)"

definition detect_has_image :: "request \<Rightarrow> bool" where
  "detect_has_image rq = truthy (request.input_image_path rq)"

definition detect_has_structure :: "request \<Rightarrow> bool" where
  "detect_has_structure rq = truthy (request.input_structure_path rq)"

definition detect_modalities :: "request \<Rightarrow> string list" where
  "detect_modalities rq =
     (if detect_has_image rq then [''image''] else []) @
     (if detect_has_sequence rq then [''sequence''] else []) @
     (if detect_has_structure rq then [''structure''] else [])"

definition classify :: "bool \<Rightarrow> string list \<Rightarrow> string \<times> int \<times> primary" where
  "classify ht ms =
     (if ht \<and> length ms = 0 then (''text_only'', 1, NoPrimary)
      else if length ms > 0 \<and> \<not> ht then
        (if length ms = 1 then (hd ms, 2, OnePrimary (hd ms))
         else (join_underscore ms, 2, ManyPrimary ms))
      else if ht \<and> length ms > 0 then
        (if length ms = 1 then (''text_'' @ hd ms, 3, OnePrimary (hd ms))
         else (''text_'' @ join_underscore ms, 3, ManyPrimary ms))
      else (''unknown'', 1, NoPrimary))"

definition finish_encode :: "graph_state \<Rightarrow> graph_state" where
  "finish_encode st =
     (let rq = request.truncate st;
          ht = detect_has_text rq;
          ms = detect_modalities rq;
          (it, sc, pm) = classify ht ms
      in st\<lparr>input_type := it, search_case := sc, has_text := ht,
            has_modal := (detect_has_sequence rq \<or> detect_has_image rq \<or> detect_has_structure rq),
            primary_modality := pm, modalities := ms\<rparr>)"

text \<open>
  \<^verbatim>\<open>node_encode\<close>.  \<^verbatim>\<open>vectors\<close>, \<^verbatim>\<open>sparse_vectors\<close>, \<^verbatim>\<open>cache_hits\<close> and
  \<^verbatim>\<open>concepts\<close> start empty and are written into the state at the end; the blocks
  run in the order text, sequence, image, structure, each under its \<^verbatim>\<open>if has_...\<close>.
\<close>

definition text_stage ::
  "env \<Rightarrow> real \<Rightarrow> emb_entry multi_level_cache \<Rightarrow> graph_state
     \<Rightarrow> (error + graph_state) \<times> emb_entry multi_level_cache" where
  "text_stage e now mc st =
     (if detect_has_text (request.truncate st)
      then encode_text_block e now mc st (py_str (input_text st))
      else (Inr st, mc))"

definition sequence_stage ::
  "env \<Rightarrow> real \<Rightarrow> emb_entry multi_level_cache \<Rightarrow> graph_state
     \<Rightarrow> (error + graph_state) \<times> emb_entry multi_level_cache" where
  "sequence_stage e now mc st =
     (if detect_has_sequence (request.truncate st)
      then encode_sequence_block e now mc st (py_str (input_sequence st))
      else (Inr st, mc))"

definition image_stage ::
  "env \<Rightarrow> real \<Rightarrow> emb_entry multi_level_cache \<Rightarrow> graph_state
     \<Rightarrow> graph_state \<times> emb_entry multi_level_cache" where
  "image_stage e now mc st =
     (if detect_has_image (request.truncate st)
      then encode_image_block e now mc st (py_str (input_image_path st))
      else (st, mc))"

definition structure_stage ::
  "env \<Rightarrow> real \<Rightarrow> emb_entry multi_level_cache \<Rightarrow> graph_state
     \<Rightarrow> graph_state \<times> emb_entry multi_level_cache" where
  "structure_stage e now mc st =
     (if detect_has_structure (request.truncate st)
      then encode_structure_block e now mc st (py_str (input_structure_path st))
      else (st, mc))"

definition reset_encode :: "graph_state \<Rightarrow> graph_state" where
  "reset_encode st =
     st\<lparr>vectors := Map.empty, sparse_vectors := Map.empty, cache_hits := Map.empty,
        concepts := []\<rparr>"

definition node_encode ::
  "env \<Rightarrow> real \<Rightarrow> emb_entry multi_level_cache \<Rightarrow> graph_state
     \<Rightarrow> (error + graph_state) \<times> emb_entry multi_level_cache" where
  "node_encode e now mc st =
     (let (r1, mc1) = text_stage e now mc (reset_encode st)
      in case r1 of
           Inl err \<Rightarrow> (Inl err, mc1)
         | Inr st1 \<Rightarrow>
             (let (r2, mc2) = sequence_stage e now mc1 st1
              in case r2 of
                   Inl err \<Rightarrow> (Inl err, mc2)
                 | Inr st2 \<Rightarrow>
                     (let (st3, mc3) = image_stage e now mc2 st2;
                          (st4, mc4) = structure_stage e now mc3 st3
                      in (Inr (finish_encode st4), mc4))))"

section \<open>Invariants of the embeddings cache\<close>

text \<open>
  What \<^verbatim>\<open>MultiLevelCache()\<close> establishes for its embeddings level and every
  operation keeps: the keys of the ordered dictionary are distinct, no entry has a TTL,
  the default TTL is \<^verbatim>\<open>None\<close>, and there is room for the entries of two requests.
\<close>

definition emb_wf :: "'v lru_cache \<Rightarrow> bool" where
  "emb_wf c =
     (distinct (od_keys (cache c)) \<and> (\<forall>k t. ttls c k \<noteq> Some (Some t)) \<and>
      default_ttl c = None \<and> 8 \<le> max_size c)"

text \<open>The key \<open>key\<close> holds \<open>v\<close> and at most \<open>n\<close> entries are more recent.\<close>

definition recent :: "'v lru_cache \<Rightarrow> string \<Rightarrow> 'v \<Rightarrow> nat \<Rightarrow> bool" where
  "recent c key v n = (\<exists>older newer. cache c = older @ (key, v) # newer \<and> length newer \<le> n)"

section \<open>core/qdrant_client.py: \<^verbatim>\<open>vector_search\<close> and \<^verbatim>\<open>hybrid_search\<close>\<close>

text \<open>
  The calls that Stage 2 makes to its collaborators are recorded, in order, beside the
  results: the queries sent to the vector store, the call of the reasoner, and the
  encodings of query texts.
\<close>

datatype call =
    StoreQuery string "real list" string int filter_dict
  | StoreFusedQuery string "real list" sparse_vec string string int filter_dict
  | BridgeCall "string option" "bridge_item list"
  | TextEncoding string
  | SparseEncoding string

text \<open>
  \<^verbatim>\<open>vector_search\<close> wraps the query in \<^verbatim>\<open>try ... except Exception: return []\<close>.
\<close>

definition vector_search ::
  "env \<Rightarrow> string \<Rightarrow> real list \<Rightarrow> string \<Rightarrow> int \<Rightarrow> filter_dict \<Rightarrow> result_item list \<times> call list" where
  "vector_search e coll vec name k flt =
     ((case query_points e coll vec name k flt of Inl err \<Rightarrow> [] | Inr rs \<Rightarrow> rs),
      [StoreQuery coll vec name k flt])"

text \<open>
  \<^verbatim>\<open>hybrid_search\<close>: without a sparse vector it is the dense search; an exception of
  the fused query falls back to the dense search.
\<close>

definition hybrid_search ::
  "env \<Rightarrow> string \<Rightarrow> real list \<Rightarrow> int list option \<Rightarrow> real list option \<Rightarrow> string \<Rightarrow> string
     \<Rightarrow> int \<Rightarrow> filter_dict \<Rightarrow> result_item list \<times> call list" where
  "hybrid_search e coll dense sparse_indices sparse_vals dense_name sparse_name k flt =
     (case (sparse_indices, sparse_vals) of
        (Some si, Some sv) \<Rightarrow>
          (if length si = 0 then vector_search e coll dense dense_name k flt
           else
             (let sp = \<lparr>indices = si, sparse_values = sv\<rparr>;
                  t = [StoreFusedQuery coll dense sp dense_name sparse_name k flt]
              in case query_points_fused e coll dense sp dense_name sparse_name k flt of
                   Inl err \<Rightarrow>
                     (let (rs, t') = vector_search e coll dense dense_name k flt in (rs, t @ t'))
                 | Inr rs \<Rightarrow> (rs, t)))
      | _ \<Rightarrow> vector_search e coll dense dense_name k flt)"

section \<open>graph/nodes.py: \<^verbatim>\<open>node_search\<close>\<close>

definition COLLECTIONS :: "string list" where
  "COLLECTIONS = [''proteins'', ''articles'', ''images'', ''experiments'', ''structures'']"

definition FILTERABLE_COLLECTIONS :: "string list" where
  "FILTERABLE_COLLECTIONS = [''proteins'', ''experiments'', ''structures'', ''images'']"

text \<open>\<^verbatim>\<open>"caption" if collection == "images" else "text"\<close>\<close>

definition vec_name_of :: "string \<Rightarrow> string" where
  "vec_name_of coll = (if coll = ''images'' then ''caption'' else ''text'')"

text \<open>\<^verbatim>\<open>for r in results: r["collection"] = collection\<close>\<close>

definition tag_collection :: "string \<Rightarrow> result_item list \<Rightarrow> result_item list" where
  "tag_collection coll rs = map (\<lambda>r. r\<lparr>collection := Some coll\<rparr>) rs"

text \<open>
  \<^verbatim>\<open>extract_metadata_for_bridge\<close>.  \<open>str_field\<close> is \<^verbatim>\<open>str(payload.get(key, ""))\<close>
  and \<open>slice_field n\<close> is \<^verbatim>\<open>d.get(key, [])[:n]\<close>, which raises on \<^verbatim>\<open>None\<close>.
\<close>

definition str_field :: "string field \<Rightarrow> string" where
  "str_field f = (case f of Absent \<Rightarrow> [] | Null \<Rightarrow> ''None'' | Value s \<Rightarrow> s)"

definition slice_field :: "nat \<Rightarrow> 'a list field \<Rightarrow> error + 'a list" where
  "slice_field n f =
     (case f of Absent \<Rightarrow> Inr [] | Null \<Rightarrow> Inl TypeError | Value xs \<Rightarrow> Inr (take n xs))"

text \<open>The \<^verbatim>\<open>if "protein_name" in payload: ... elif ... elif ...\<close> of the loop body.\<close>

definition named_item :: "payload \<Rightarrow> bridge_item \<Rightarrow> error + bridge_item" where
  "named_item p base =
     (if has_key (protein_name p)
      then bind_err (slice_field 5 (gene_names p)) (\<lambda>g.
             Inr (base\<lparr>md_name := protein_name p, md_genes := Some g,
                       md_function := Some (take 200 (str_field (function_text p)))\<rparr>))
      else if has_key (title p)
      then (case title p of
              Value t \<Rightarrow>
                Inr (base\<lparr>md_name := Value (take 100 t),
                          md_abstract := Some (take 200 (str_field (abstract p)))\<rparr>)
            | Null \<Rightarrow> Inl TypeError
            | Absent \<Rightarrow> Inl TypeError)
      else if has_key (caption p)
      then Inr (base\<lparr>md_name := Value (take 100 (str_field (caption p))),
                     md_description := Some (take 200 (str_field (description p)))\<rparr>)
      else Inr base)"

text \<open>
  The \<^verbatim>\<open>normalized_bridge\<close> part: skipped when the value is not a dictionary; an
  absent key is the empty dictionary.
\<close>

definition empty_bridge :: normalized_bridge where
  "empty_bridge =
     \<lparr>genes = Absent, diseases = Absent, processes = Absent, pathways = Absent,
      bridge_keywords = Absent\<rparr>"

definition bridged_with :: "normalized_bridge \<Rightarrow> bridge_item \<Rightarrow> error + bridge_item" where
  "bridged_with b item =
     bind_err (case md_genes item of
                 None \<Rightarrow> slice_field 5 (genes b)
               | Some g \<Rightarrow> if g \<noteq> [] then Inr g else slice_field 5 (genes b)) (\<lambda>g.
     bind_err (slice_field 3 (diseases b)) (\<lambda>d.
     bind_err (slice_field 3 (pathways b)) (\<lambda>w.
       Inr (item\<lparr>md_genes := Some g, md_diseases := Some d, md_pathways := Some w\<rparr>))))"

definition metadata_item :: "result_item \<Rightarrow> error + bridge_item" where
  "metadata_item r =
     (let p = item_payload r;
          base = \<lparr>md_score = float_round 3 (score r),
                  md_collection = (case collection r of None \<Rightarrow> ''unknown'' | Some c \<Rightarrow> c),
                  md_name = Absent, md_genes = None, md_function = None, md_abstract = None,
                  md_description = None, md_diseases = None, md_pathways = None\<rparr>
      in bind_err (named_item p base) (\<lambda>item.
           case bridge p of
             Null \<Rightarrow> Inr item
           | Absent \<Rightarrow> bridged_with empty_bridge item
           | Value b \<Rightarrow> bridged_with b item))"

fun metadata_items :: "result_item list \<Rightarrow> error + bridge_item list" where
  "metadata_items [] = Inr []"
| "metadata_items (r # rs) =
     bind_err (metadata_item r) (\<lambda>item.
     bind_err (metadata_items rs) (\<lambda>items. Inr (item # items)))"

definition extract_metadata_for_bridge :: "result_item list \<Rightarrow> error + bridge_item list" where
  "extract_metadata_for_bridge results = metadata_items (take 5 results)"

text \<open>
  The modalities of the state, or, when the list is empty, the ones rebuilt from the
  vectors that are present.
\<close>

definition effective_modalities :: "graph_state \<Rightarrow> string list" where
  "effective_modalities st =
     (if modalities st \<noteq> [] then modalities st
      else (if vectors st ''image'' \<noteq> None then [''image''] else []) @
           (if vectors st ''sequence'' \<noteq> None then [''sequence''] else []) @
           (if vectors st ''structure'' \<noteq> None then [''structure''] else []))"

text \<open>
  Case 1: every collection is searched with the text vector.  The \<^verbatim>\<open>except\<close> branch
  of the loop body cannot be reached, as \<^verbatim>\<open>vector_search\<close> raises nothing.
\<close>

fun search_all_text ::
  "env \<Rightarrow> real list \<Rightarrow> int \<Rightarrow> string list \<Rightarrow> results_by_collection \<times> call list
     \<Rightarrow> results_by_collection \<times> call list" where
  "search_all_text e text_vec k [] acc = acc"
| "search_all_text e text_vec k (c # cs) acc =
     (let (rs, t) = vector_search e c text_vec (vec_name_of c) (k * 2) None
      in search_all_text e text_vec k cs (od_assign (fst acc) c (tag_collection c rs), snd acc @ t))"

text \<open>
  Phase 1, one modality: when the modality is listed and has a vector, its home
  collection is searched with that vector under the vector slot of the modality's name.
\<close>

definition phase1_modal ::
  "env \<Rightarrow> graph_state \<Rightarrow> string list \<Rightarrow> string \<Rightarrow> string \<Rightarrow> results_by_collection \<times> call list
     \<Rightarrow> results_by_collection \<times> call list" where
  "phase1_modal e st ms modality coll acc =
     (case vectors st modality of
        Some vec \<Rightarrow>
          (if modality \<in> set ms
           then (let (rs, t) = vector_search e coll vec modality (top_k st * 2) None
                 in (od_assign (fst acc) coll (tag_collection coll rs), snd acc @ t))
           else acc)
      | None \<Rightarrow> acc)"

text \<open>Case 2 searches images, proteins, structures in this order; Case 3 proteins first.\<close>

definition phase1_case2 :: "env \<Rightarrow> graph_state \<Rightarrow> string list \<Rightarrow> results_by_collection \<times> call list" where
  "phase1_case2 e st ms =
     phase1_modal e st ms ''structure'' ''structures''
       (phase1_modal e st ms ''sequence'' ''proteins''
         (phase1_modal e st ms ''image'' ''images'' ([], [])))"

definition phase1_case3 :: "env \<Rightarrow> graph_state \<Rightarrow> string list \<Rightarrow> results_by_collection \<times> call list" where
  "phase1_case3 e st ms =
     phase1_modal e st ms ''structure'' ''structures''
       (phase1_modal e st ms ''image'' ''images''
         (phase1_modal e st ms ''sequence'' ''proteins'' ([], [])))"

text \<open>The gene filter of Phase 3.\<close>

definition gene_filter :: "graph_state \<Rightarrow> bridge_output \<Rightarrow> string \<Rightarrow> filter_dict" where
  "gene_filter st bo coll =
     (if filter_by_genes st \<and> filter_genes (filters bo) \<noteq> []
      then (if coll \<in> set FILTERABLE_COLLECTIONS
            then Some (''normalized_bridge.genes'', filter_genes (filters bo)) else None)
      else None)"

text \<open>The retry without the filter when a filtered search gave nothing.\<close>

definition retry_unfiltered ::
  "env \<Rightarrow> string \<Rightarrow> real list \<Rightarrow> int \<Rightarrow> filter_dict \<Rightarrow> result_item list \<times> call list
     \<Rightarrow> result_item list \<times> call list" where
  "retry_unfiltered e coll query_vec k flt found =
     (if length (fst found) = 0 \<and> flt \<noteq> None
      then (let (rs, t) = vector_search e coll query_vec (vec_name_of coll) (k * 2) None
            in (rs, snd found @ t))
      else found)"

text \<open>
  Phase 3 of Case 2 for one collection, inside its \<^verbatim>\<open>try\<close>: an exception of the text
  encoder gives the empty list.  (The call \<^verbatim>\<open>qdrant.client.get_collection\<close>, whose
  result is only logged and whose exception is caught, is left out.)
\<close>

definition phase3_case2_collection ::
  "env \<Rightarrow> graph_state \<Rightarrow> bridge_output \<Rightarrow> string \<Rightarrow> result_item list \<times> call list" where
  "phase3_case2_collection e st bo coll =
     (let query_text = od_get (queries bo) coll ''protein function biology''
      in case encode_text e query_text of
           Inl err \<Rightarrow> ([], [TextEncoding query_text])
         | Inr query_vec \<Rightarrow>
             (let flt = gene_filter st bo coll;
                  found = vector_search e coll query_vec (vec_name_of coll) (top_k st * 2) flt;
                  (rs, t) = retry_unfiltered e coll query_vec (top_k st) flt found
              in (tag_collection coll rs, TextEncoding query_text # t)))"

text \<open>
  Phase 3 of Case 3 for one collection.  The query is the reasoner's, else the user's
  text, else a fixed phrase.  A query that is not the user's text is encoded again,
  densely and sparsely; the user's text uses the vectors of the state, the sparse one
  under the key \<^verbatim>\<open>"text"\<close>.  The fused search runs when the sparse vector is a
  dictionary with indices and values.
\<close>

definition sparse_dict_of :: "sparse_out \<Rightarrow> sparse_vec option" where
  "sparse_dict_of r = (case r of SparseDict d \<Rightarrow> Some d | _ \<Rightarrow> None)"

definition dense_or_hybrid ::
  "env \<Rightarrow> string \<Rightarrow> real list \<Rightarrow> sparse_vec option \<Rightarrow> int \<Rightarrow> filter_dict
     \<Rightarrow> result_item list \<times> call list" where
  "dense_or_hybrid e coll query_vec query_sparse k flt =
     (let vec_name = vec_name_of coll;
          sparse_name = (if vec_name \<noteq> ''caption'' then vec_name @ ''_sparse'' else ''caption_sparse'')
      in case query_sparse of
           Some sp \<Rightarrow>
             (if indices sp \<noteq> [] \<and> sparse_values sp \<noteq> []
              then hybrid_search e coll query_vec (Some (indices sp)) (Some (sparse_values sp))
                     vec_name sparse_name (k * 2) flt
              else vector_search e coll query_vec vec_name (k * 2) flt)
         | None \<Rightarrow> vector_search e coll query_vec vec_name (k * 2) flt)"

definition phase3_case3_collection ::
  "env \<Rightarrow> graph_state \<Rightarrow> bridge_output \<Rightarrow> string \<Rightarrow> result_item list \<times> call list" where
  "phase3_case3_collection e st bo coll =
     (let query_text =
            py_str (py_or (map_of (queries bo) coll)
                          (py_or (input_text st) (Some ''biological function'')));
          flt = gene_filter st bo coll
      in if Some query_text \<noteq> input_text st
         then
           (case encode_text e query_text of
              Inl err \<Rightarrow> ([], [TextEncoding query_text])
            | Inr query_vec \<Rightarrow>
                (case encode_sparse e query_text of
                   Inl err \<Rightarrow> ([], [TextEncoding query_text, SparseEncoding query_text])
                 | Inr sp_out \<Rightarrow>
                     (let found = dense_or_hybrid e coll query_vec (sparse_dict_of sp_out)
                                    (top_k st) flt;
                          (rs, t) = retry_unfiltered e coll query_vec (top_k st) flt found
                      in (tag_collection coll rs,
                          TextEncoding query_text # SparseEncoding query_text # t))))
         else
           (let query_vec = (case vectors st ''text'' of None \<Rightarrow> [] | Some v \<Rightarrow> v);
                found = dense_or_hybrid e coll query_vec (sparse_vectors st ''text'') (top_k st) flt;
                (rs, t) = retry_unfiltered e coll query_vec (top_k st) flt found
            in (tag_collection coll rs, t)))"

text \<open>The loop of Phase 3 over the collections that Phase 1 did not search.\<close>

fun phase3_loop ::
  "(string \<Rightarrow> result_item list \<times> call list) \<Rightarrow> string list \<Rightarrow> results_by_collection \<times> call list
     \<Rightarrow> results_by_collection \<times> call list" where
  "phase3_loop one [] acc = acc"
| "phase3_loop one (c # cs) acc =
     phase3_loop one cs (od_assign (fst acc) c (fst (one c)), snd acc @ snd (one c))"

text \<open>\<^verbatim>\<open>{**phase1_results, **phase3_results}\<close>\<close>

definition merge_dicts :: "results_by_collection \<Rightarrow> results_by_collection \<Rightarrow> results_by_collection" where
  "merge_dicts a b = fold (\<lambda>kv d. od_assign d (fst kv) (snd kv)) b a"

text \<open>
  Cases 2 and 3 after the modalities are known: Phase 1, the reasoner (whose exception
  leaves \<^verbatim>\<open>node_search\<close>), Phase 3, and the state update at the end of the function.
\<close>

definition search_with_bridge ::
  "env \<Rightarrow> graph_state \<Rightarrow> string \<Rightarrow> results_by_collection \<times> call list \<Rightarrow> string option
     \<Rightarrow> (bridge_output \<Rightarrow> string \<Rightarrow> result_item list \<times> call list)
     \<Rightarrow> error + graph_state \<times> call list" where
  "search_with_bridge e st strategy phase1 user_text one =
     (let all_phase1 = concat (map snd (fst phase1))
      in case extract_metadata_for_bridge all_phase1 of
           Inl err \<Rightarrow> Inl err
         | Inr metadata \<Rightarrow>
             (case bridge_cross_modal e user_text metadata of
                Inl err \<Rightarrow> Inl err
              | Inr bo \<Rightarrow>
                  (let rest = filter (\<lambda>c. c \<notin> set (od_keys (fst phase1))) COLLECTIONS;
                       phase3 = phase3_loop (one bo) rest ([], [])
                   in Inr (st\<lparr>search_strategy := strategy, alignment := alignment_label bo,
                              phase1_results := fst phase1, phase1_metadata := metadata,
                              phase3_results := fst phase3,
                              all_results := merge_dicts (fst phase1) (fst phase3),
                              bridge_out := Some bo\<rparr>,
                           snd phase1 @ [BridgeCall user_text metadata] @ snd phase3))))"

definition node_search :: "env \<Rightarrow> graph_state \<Rightarrow> error + graph_state \<times> call list" where
  "node_search e st =
     (if search_case st = 1 then
        (let text_vec = (case vectors st ''text'' of None \<Rightarrow> [] | Some v \<Rightarrow> v)
         in if text_vec = []
            then Inr (st\<lparr>all_results := [], search_strategy := ''CAS_1_ERROR''\<rparr>, [])
            else
              (let found = search_all_text e text_vec (top_k st) COLLECTIONS ([], [])
               in Inr (st\<lparr>search_strategy := ''CAS_1'', alignment := None,
                          phase1_results := [], phase1_metadata := [], phase3_results := [],
                          all_results := fst found, bridge_out := None\<rparr>, snd found)))
      else if search_case st = 2 then
        (let ms = effective_modalities st;
             st1 = st\<lparr>modalities := ms\<rparr>
         in search_with_bridge e st1 ''CAS_2'' (phase1_case2 e st1 ms) None
              (phase3_case2_collection e st1))
      else if search_case st = 3 then
        (let ms = effective_modalities st;
             st1 = st\<lparr>modalities := ms\<rparr>
         in search_with_bridge e st1 ''CAS_3'' (phase1_case3 e st1 ms) (input_text st)
              (phase3_case3_collection e st1))
      else Inr (st\<lparr>phase1_results := [], phase1_metadata := [], phase3_results := [],
                  all_results := [], bridge_out := None\<rparr>, []))"
section \<open>graph/nodes.py: \<^verbatim>\<open>node_rank_enrich\<close>, the selection per collection\<close>

text \<open>
  \<^verbatim>\<open>for i, r in enumerate(selected): r["mmr_rank"] = i + 1\<close>
\<close>

definition with_mmr_rank :: "result_item list \<Rightarrow> result_item list" where
  "with_mmr_rank selected =
     map (\<lambda>(i, r). r\<lparr>mmr_rank := Some (int i + 1)\<rparr>) (enumerate 0 selected)"

text \<open>
  The body of the loop over \<^verbatim>\<open>all_results\<close>: an empty list stays empty; otherwise
  the first ten results go through \<^verbatim>\<open>_apply_mmr\<close>, whose exception is not caught.
\<close>

definition rerank_collection ::
  "env \<Rightarrow> real \<Rightarrow> int \<Rightarrow> result_item list \<Rightarrow> error + result_item list" where
  "rerank_collection e mmr_lambda k results =
     (if results = [] then Inr []
      else (case apply_mmr e (take 10 results) mmr_lambda k of
              Inl err \<Rightarrow> Inl err
            | Inr selected \<Rightarrow> Inr (with_mmr_rank selected)))"

fun rerank_loop ::
  "env \<Rightarrow> real \<Rightarrow> int \<Rightarrow> results_by_collection \<Rightarrow> results_by_collection
     \<Rightarrow> error + results_by_collection" where
  "rerank_loop e mmr_lambda k [] reranked = Inr reranked"
| "rerank_loop e mmr_lambda k ((coll, results) # rest) reranked =
     (case rerank_collection e mmr_lambda k results of
        Inl err \<Rightarrow> Inl err
      | Inr selected \<Rightarrow> rerank_loop e mmr_lambda k rest (od_assign reranked coll selected))"

text \<open>
  \<^verbatim>\<open>alignment = state.get("alignment")\<close>,
  \<^verbatim>\<open>mmr_lambda = MMR_LAMBDA.get(alignment, 0.7)\<close>, then the loop with
  \<^verbatim>\<open>state.get("top_k", 5)\<close>.
\<close>

definition rerank_results :: "env \<Rightarrow> graph_state \<Rightarrow> error + results_by_collection" where
  "rerank_results e st =
     rerank_loop e (mmr_lambda_for (alignment st)) (top_k st) (all_results st) []"


section \<open>Example data\<close>

text \<open>
  A cache of capacity 2 with TTL 3600 in which \<open>a\<close> and \<open>b\<close> were stored at times 0 and 1
  and \<open>a\<close> was read at time 2.
\<close>

definition cache_ab :: "nat lru_cache" where
  "cache_ab =
     snd (LRUCache_get
       (snd (LRUCache_set (snd (LRUCache_set (LRUCache_init 2 (Some 3600)) 0 ''a'' 1 None))
          1 ''b'' 2 None)) 2 ''a'')"

text \<open>Two protein results that share the genes BRCA1 and TP53 and nothing else.\<close>

definition fixture_protein_a :: result_item where
  "fixture_protein_a =
     hit ''prot-a'' (7 / 8)
       (empty_payload\<lparr>protein_name := Value ''Breast cancer type 1 susceptibility protein'',
          bridge := Value \<lparr>genes = Value [''BRCA1'', ''TP53''],
                          diseases = Value [''breast cancer''], processes = Value [],
                          pathways = Value [], bridge_keywords = Absent\<rparr>\<rparr>)"

definition fixture_protein_b :: result_item where
  "fixture_protein_b =
     hit ''prot-b'' (3 / 4)
       (empty_payload\<lparr>protein_name := Value ''Cellular tumor antigen p53'',
          bridge := Value \<lparr>genes = Value [''TP53'', ''EGFR'', ''BRCA1''],
                          diseases = Value [], processes = Value [],
                          pathways = Value [''p53 signaling''],
                          bridge_keywords = Absent\<rparr>\<rparr>)"

text \<open>
  Collaborators for the examples.  The text encoder gives one of two orthogonal unit
  vectors of 11 components; the other encoders give a unit vector too, the sequence
  encoder a different one for \<open>fixture_sequence_b\<close>.  The store is
  empty, and the digest of a string is the string itself.
\<close>

text \<open>
  Two protein sequences of 104 and 102 residues with the same first 100 residues, and the
  request that carries a sequence and nothing else.
\<close>

definition fixture_sequence_a :: string where
  "fixture_sequence_a = replicate 100 CHR ''M'' @ ''KTAY''"

definition fixture_sequence_b :: string where
  "fixture_sequence_b = replicate 100 CHR ''M'' @ ''QL''"

definition sequence_request :: "string \<Rightarrow> request" where
  "sequence_request s =
     \<lparr>input_text = None, input_sequence = Some s, input_image_path = None,
      input_structure_path = None, top_k = 5, include_graph = False, include_evidence = True,
      include_summary = True, include_design_candidates = True, filter_by_genes = True\<rparr>"

definition unit_vector :: "nat \<Rightarrow> real list" where
  "unit_vector i = map (\<lambda>j. if j = i then 1 else 0) [0..<11]"

definition fixture_encode :: "string \<Rightarrow> error + real list" where
  "fixture_encode t =
     Inr (if t = ''Cellular tumor antigen p53'' then unit_vector 1 else unit_vector 0)"

definition fixture_env :: env where
  "fixture_env =
     \<lparr>encode_text = fixture_encode,
      encode_sparse = (\<lambda>t. Inr (SparseList [\<lparr>indices = [7], sparse_values = [1]\<rparr>])),
      extract_concepts = (\<lambda>t. Inr []),
      encode_sequence = (\<lambda>s. Inr (if s = fixture_sequence_b then unit_vector 5 else unit_vector 2)),
      encode_image = (\<lambda>p. Inr (unit_vector 3)),
      encode_structure = (\<lambda>p. Inr (unit_vector 4)),
      query_points = (\<lambda>coll vec name k flt. Inr []),
      query_points_fused = (\<lambda>coll vec sp dense_name sparse_name k flt. Inr []),
      bridge_cross_modal = (\<lambda>user_text metadata.
         Inr \<lparr>queries = [], filters = \<lparr>filter_genes = [], filter_diseases = [],
                 filter_pathways = []\<rparr>,
              alignment_label = Some ''aligned'', interpretation_text = Some ''Search results found.''\<rparr>),
      generate_design_candidates = (\<lambda>q rs k. Inr []),
      generate_summary = (\<lambda>q rs. Inr ''No results.''),
      process_article_input = (\<lambda>q p. Inr q),
      set_iter = (\<lambda>xs. xs),
      sha256_hex = (\<lambda>s. s)\<rparr>"

text \<open>
  A state after Stage 2 of a text-free request: no alignment label, and the two example
  proteins as the results of the protein collection.
\<close>

definition fixture_ranked_state :: graph_state where
  "fixture_ranked_state =
     (create_initial_state (sequence_request fixture_sequence_a))
       \<lparr>all_results := [(''proteins'', [fixture_protein_a, fixture_protein_b])]\<rparr>"
section \<open>Ordered dictionaries\<close>

lemma od_assign_keys: "set (od_keys (od_assign d k v)) = insert k (set (od_keys d))"
proof (cases "k \<in> set (od_keys d)")
  case False
  then show ?thesis by (simp add: od_assign_def od_keys_def)
next
  case True
  have "map fst (map (\<lambda>e. if fst e = k then (k, v) else e) d) = map fst d"
    by (induction d) auto
  then have "od_keys (od_assign d k v) = od_keys d"
    using True by (simp add: od_assign_def od_keys_def)
  with True show ?thesis by auto
qed

lemma map_of_replace:
  "map_of (map (\<lambda>e. if fst e = k then (k, v) else e) d) k' =
     (if k' = k then (if k \<in> fst ` set d then Some v else None) else map_of d k')"
proof (induction d)
  case Nil
  then show ?case by simp
next
  case (Cons a d)
  obtain x y where a: "a = (x, y)" by (cases a)
  show ?case
  proof (cases "x = k")
    case True
    then show ?thesis using Cons.IH by (simp add: a)
  next
    case False
    then show ?thesis using Cons.IH by (cases "k' = k") (auto simp: a)
  qed
qed

lemma od_assign_lookup: "map_of (od_assign d k v) k' = (if k' = k then Some v else map_of d k')"
proof (cases "k \<in> set (od_keys d)")
  case False
  then have "map_of d k = None" by (simp add: od_keys_def map_of_eq_None_iff)
  with False show ?thesis by (auto simp: od_assign_def map_add_def split: option.splits)
next
  case True
  then have "k \<in> fst ` set d" by (simp add: od_keys_def)
  then have "map_of (map (\<lambda>e. if fst e = k then (k, v) else e) d) k' =
      (if k' = k then Some v else map_of d k')"
    by (simp add: map_of_replace)
  with True show ?thesis by (simp add: od_assign_def)
qed

section \<open>Properties of the cache\<close>

declare evict.simps [simp del]

lemma evict_room: "int (length (cache c)) < max_size c \<Longrightarrow> evict c = (None, c)"
  by (simp add: evict.simps)

lemma evict_props:
  "evict c = (err, c') \<Longrightarrow>
     set (od_keys (cache c')) \<subseteq> set (od_keys (cache c)) \<and> max_size c' = max_size c \<and>
     default_ttl c' = default_ttl c"
proof (induction c arbitrary: err c' rule: evict.induct)
  case (1 c)
  show ?case
  proof (cases "int (length (cache c)) \<ge> max_size c")
    case False
    with "1.prems" show ?thesis by (simp add: evict.simps)
  next
    case True
    show ?thesis
    proof (cases "cache c")
      case Nil
      with True "1.prems" show ?thesis by (simp add: evict.simps)
    next
      case (Cons e es)
      with True "1.prems" have ev: "evict (LRUCache_remove c (fst e)) = (err, c')"
        by (simp add: evict.simps)
      from "1.IH"[OF True Cons ev]
      show ?thesis
        by (auto simp: LRUCache_remove_def od_pop_def od_keys_def)
    qed
  qed
qed

lemma evict_ok: "0 < max_size c \<Longrightarrow> fst (evict c) = None"
proof (induction c rule: evict.induct)
  case (1 c)
  show ?case
  proof (cases "int (length (cache c)) \<ge> max_size c")
    case False
    then show ?thesis by (simp add: evict.simps)
  next
    case True
    show ?thesis
    proof (cases "cache c")
      case Nil
      with True "1.prems" show ?thesis by simp
    next
      case (Cons e es)
      have "0 < max_size (LRUCache_remove c (fst e))"
        using "1.prems" by (simp add: LRUCache_remove_def)
      from "1.IH"[OF True Cons this] True Cons
      show ?thesis by (simp add: evict.simps)
    qed
  qed
qed

lemma map_of_od_pop: "k \<noteq> k' \<Longrightarrow> map_of (od_pop xs k') k = map_of xs k"
  by (induction xs) (auto simp: od_pop_def)

lemma evict_maps:
  "evict c = (err, c') \<Longrightarrow> k \<in> set (od_keys (cache c')) \<Longrightarrow>
     timestamps c' k = timestamps c k \<and> ttls c' k = ttls c k \<and> map_of (cache c') k = map_of (cache c) k"
proof (induction c arbitrary: err c' rule: evict.induct)
  case (1 c)
  show ?case
  proof (cases "int (length (cache c)) \<ge> max_size c")
    case False
    with "1.prems" show ?thesis by (simp add: evict.simps)
  next
    case True
    show ?thesis
    proof (cases "cache c")
      case Nil
      with True "1.prems" show ?thesis by (simp add: evict.simps)
    next
      case (Cons e es)
      with True "1.prems" have ev: "evict (LRUCache_remove c (fst e)) = (err, c')"
        by (simp add: evict.simps)
      from evict_props[OF ev] "1.prems"(2)
      have "k \<in> set (od_keys (cache (LRUCache_remove c (fst e))))" by auto
      then have ne: "k \<noteq> fst e"
        by (auto simp: LRUCache_remove_def od_pop_def od_keys_def)
      have "map_of (od_pop (cache c) (fst e)) k = map_of (cache c) k"
        using ne by (rule map_of_od_pop)
      with "1.IH"[OF True Cons ev "1.prems"(2)] ne
      show ?thesis
        by (simp add: LRUCache_remove_def)
    qed
  qed
qed


lemma set_result:
  assumes m: "0 < max_size c"
  shows "\<exists>c2. LRUCache_set c now key v ttl =
           (None, c2\<lparr>cache := cache c2 @ [(key, v)],
                     timestamps := (timestamps c2)(key \<mapsto> now),
                     ttls := (ttls c2)(key \<mapsto> effective_ttl c ttl)\<rparr>) \<and>
           key \<notin> set (od_keys (cache c2)) \<and>
           evict (if key \<in> set (od_keys (cache c)) then LRUCache_remove c key else c) = (None, c2)"
proof -
  define c1 where "c1 = (if key \<in> set (od_keys (cache c)) then LRUCache_remove c key else c)"
  have m1: "0 < max_size c1" using m by (simp add: c1_def LRUCache_remove_def)
  have k1: "key \<notin> set (od_keys (cache c1))"
    by (auto simp: c1_def LRUCache_remove_def od_pop_def od_keys_def)
  have d1: "default_ttl c1 = default_ttl c" by (simp add: c1_def LRUCache_remove_def)
  obtain c2 where ev: "evict c1 = (None, c2)"
    using evict_ok[OF m1] by (cases "evict c1") auto
  from evict_props[OF ev] k1 d1 have k2: "key \<notin> set (od_keys (cache c2))" and d2: "effective_ttl c2 ttl = effective_ttl c ttl"
    by (auto simp: effective_ttl_def)
  show ?thesis
    using ev k2 d2
    by (intro exI[of _ c2]) (simp add: LRUCache_set_def c1_def[symmetric] od_assign_def)
qed

lemma set_ok: "0 < max_size c \<Longrightarrow> fst (LRUCache_set c now key v ttl) = None"
  using set_result[of c now key v ttl] by auto

lemma map_of_append_new: "k \<notin> set (od_keys xs) \<Longrightarrow> map_of (xs @ [(k, v)]) k = Some v"
  by (induction xs) (auto simp: od_keys_def)

lemma set_get_roundtrip:
  assumes m: "0 < max_size c"
    and fresh: "case effective_ttl c ttl of None \<Rightarrow> True
                | Some t \<Rightarrow> now' - now \<le> real_of_int t"
  shows "fst (LRUCache_get (snd (LRUCache_set c now key v ttl)) now' key) = Some v"
proof -
  from set_result[OF m, of now key v ttl] obtain c2 where
    s: "LRUCache_set c now key v ttl =
           (None, c2\<lparr>cache := cache c2 @ [(key, v)],
                     timestamps := (timestamps c2)(key \<mapsto> now),
                     ttls := (ttls c2)(key \<mapsto> effective_ttl c ttl)\<rparr>)"
    and k: "key \<notin> set (od_keys (cache c2))" by blast
  show ?thesis
    using fresh k
    by (cases "if ttl \<noteq> None then ttl else default_ttl c")
       (auto simp: s LRUCache_get_def od_keys_def map_add_Some_iff map_of_eq_None_iff split: option.splits)
qed

lemma set_get_expired:
  assumes m: "0 < max_size c"
    and t: "effective_ttl c ttl = Some t"
    and late: "now' - now > real_of_int t"
  shows "fst (LRUCache_get (snd (LRUCache_set c now key v ttl)) now' key) = None \<and>
         key \<notin> set (od_keys (cache (snd (LRUCache_get (snd (LRUCache_set c now key v ttl)) now' key))))"
proof -
  from set_result[OF m, of now key v ttl] obtain c2 where
    s: "LRUCache_set c now key v ttl =
           (None, c2\<lparr>cache := cache c2 @ [(key, v)],
                     timestamps := (timestamps c2)(key \<mapsto> now),
                     ttls := (ttls c2)(key \<mapsto> effective_ttl c ttl)\<rparr>)"
    and k: "key \<notin> set (od_keys (cache c2))" by blast
  show ?thesis
    using t late k
    by (auto simp: s LRUCache_get_def LRUCache_remove_def od_pop_def od_keys_def)
qed


lemma od_pop_head_distinct:
  "distinct (od_keys ((k, x) # rest)) \<Longrightarrow> od_pop ((k, x) # rest) k = rest"
  by (auto simp: od_pop_def od_keys_def intro!: filter_True)

lemma evict_one:
  assumes c: "cache c = (lru, x) # rest"
    and d: "distinct (od_keys (cache c))"
    and full: "int (length (cache c)) = max_size c"
  shows "evict c = (None, LRUCache_remove c lru)"
proof -
  have r: "cache (LRUCache_remove c lru) = rest"
    using d c by (simp add: LRUCache_remove_def od_pop_head_distinct)
  have "evict (LRUCache_remove c lru) = (None, LRUCache_remove c lru)"
    by (rule evict_room) (use r c full in \<open>simp add: LRUCache_remove_def\<close>)
  then show ?thesis
    using c full by (subst evict.simps) simp
qed

lemma set_evicts_lru:
  assumes c: "cache c = (lru, x) # rest"
    and d: "distinct (od_keys (cache c))"
    and full: "int (length (cache c)) = max_size c"
    and new: "key \<notin> set (od_keys (cache c))"
  shows "LRUCache_set c now key v ttl =
           (None, c\<lparr>cache := rest @ [(key, v)],
                    timestamps := ((timestamps c)(lru := None))(key \<mapsto> now),
                    ttls := ((ttls c)(lru := None))(key \<mapsto> effective_ttl c ttl)\<rparr>)"
proof -
  have r: "od_pop (cache c) lru = rest"
    using d c by (simp add: od_pop_head_distinct)
  have k: "key \<notin> set (od_keys rest)" using new c by (simp add: od_keys_def)
  show ?thesis
    using new k r
    by (simp add: LRUCache_set_def evict_one[OF c d full] LRUCache_remove_def od_assign_def
        effective_ttl_def)
qed

lemma set_eviction_effect:
  assumes c: "cache c = (lru, x) # rest"
    and d: "distinct (od_keys (cache c))"
    and full: "int (length (cache c)) = max_size c"
    and new: "key \<notin> set (od_keys (cache c))"
  shows "fst (LRUCache_get (snd (LRUCache_set c now key v ttl)) now' lru) = None"
    and "k \<in> set (od_keys rest) \<Longrightarrow>
         fst (LRUCache_get (snd (LRUCache_set c now key v ttl)) now' k) = fst (LRUCache_get c now' k)"
    and "od_keys (cache (snd (LRUCache_set c now key v ttl))) = od_keys rest @ [key]"
proof -
  note s = set_evicts_lru[OF c d full new, of now v ttl]
  have l: "lru \<notin> set (od_keys rest)" "lru \<noteq> key"
    using d c new by (auto simp: od_keys_def)
  show "fst (LRUCache_get (snd (LRUCache_set c now key v ttl)) now' lru) = None"
    using l by (simp add: s LRUCache_get_def od_keys_def)
  show "od_keys (cache (snd (LRUCache_set c now key v ttl))) = od_keys rest @ [key]"
    by (simp add: s od_keys_def)
  assume kin: "k \<in> set (od_keys rest)"
  then have ne: "k \<noteq> lru" "k \<noteq> key" using l new c by (auto simp: od_keys_def)
  have m: "map_of (rest @ [(key, v)]) k = map_of ((lru, x) # rest) k"
    using ne kin by (auto simp: map_add_def od_keys_def split: option.splits)
  show "fst (LRUCache_get (snd (LRUCache_set c now key v ttl)) now' k) = fst (LRUCache_get c now' k)"
    using ne kin m unfolding s LRUCache_get_def Let_def
    by (simp add: c od_keys_def)
qed

lemma get_hit_refreshes:
  assumes d: "distinct (od_keys (cache c))"
    and hit: "fst (LRUCache_get c now k) \<noteq> None"
  shows "od_keys (cache (snd (LRUCache_get c now k))) = filter (\<lambda>k'. k' \<noteq> k) (od_keys (cache c)) @ [k]"
proof -
  have kin: "k \<in> set (od_keys (cache c))"
    using hit by (auto simp: LRUCache_get_def split: if_splits)
  have "map fst (filter (\<lambda>e. fst e = k) xs) = [k]" if "distinct (map fst xs)" "k \<in> fst ` set xs" for xs :: "(string \<times> 'a) list"
    using that by (induction xs) (auto simp: filter_empty_conv image_iff)
  from this[of "cache c"] d kin have one: "map fst (filter (\<lambda>e. fst e = k) (cache c)) = [k]"
    by (simp add: od_keys_def)
  have "map fst (filter (\<lambda>e. fst e \<noteq> k) xs) = filter (\<lambda>k'. k' \<noteq> k) (map fst xs)" for xs :: "(string \<times> 'a) list"
    by (induction xs) auto
  with one show ?thesis
    using hit kin by (auto simp: LRUCache_get_def od_move_to_end_def od_keys_def Let_def split: if_splits)
qed


text \<open>
  Claim C8.  For a cache with positive capacity:
  \<^enum> \<open>set(key, v)\<close> at time \<open>now\<close> followed by \<open>get(key)\<close> at a time \<open>now'\<close>
    at which the entry's TTL (the one given, else the default) has not elapsed, in
    particular immediately, returns \<open>v\<close>;
  \<^enum> once the TTL has elapsed, \<open>get(key)\<close> is a miss and the read removes the entry;
  \<^enum> an insert of a new key into a full cache evicts exactly the oldest key of the
    order: it becomes a miss, the order of the others is kept and every other key
    answers as before;
  \<^enum> every hit moves its key to the most recent end of that order.
\<close>

theorem LRUCache_contract:
  fixes c :: "'v lru_cache"
  assumes "0 < max_size c"
  shows
    "((case effective_ttl c ttl of None \<Rightarrow> True | Some t \<Rightarrow> now' - now \<le> real_of_int t) \<longrightarrow>
        fst (LRUCache_set c now key v ttl) = None \<and>
        fst (LRUCache_get (snd (LRUCache_set c now key v ttl)) now' key) = Some v) \<and>
     (\<forall>t. effective_ttl c ttl = Some t \<and> now' - now > real_of_int t \<longrightarrow>
        fst (LRUCache_get (snd (LRUCache_set c now key v ttl)) now' key) = None \<and>
        key \<notin> set (od_keys (cache (snd (LRUCache_get (snd (LRUCache_set c now key v ttl)) now' key))))) \<and>
     (\<forall>lru x rest.
        cache c = (lru, x) # rest \<and> distinct (od_keys (cache c)) \<and>
        int (length (cache c)) = max_size c \<and> key \<notin> set (od_keys (cache c)) \<longrightarrow>
        fst (LRUCache_set c now key v ttl) = None \<and>
        od_keys (cache (snd (LRUCache_set c now key v ttl))) = od_keys rest @ [key] \<and>
        fst (LRUCache_get (snd (LRUCache_set c now key v ttl)) now' lru) = None \<and>
        (\<forall>k \<in> set (od_keys rest).
           fst (LRUCache_get (snd (LRUCache_set c now key v ttl)) now' k) =
           fst (LRUCache_get c now' k))) \<and>
     (\<forall>k. distinct (od_keys (cache c)) \<and> fst (LRUCache_get c now k) \<noteq> None \<longrightarrow>
        od_keys (cache (snd (LRUCache_get c now k))) =
        filter (\<lambda>k'. k' \<noteq> k) (od_keys (cache c)) @ [k])"
proof (intro conjI impI allI ballI)
  assume "case effective_ttl c ttl of None \<Rightarrow> True | Some t \<Rightarrow> now' - now \<le> real_of_int t"
  with assms show "fst (LRUCache_get (snd (LRUCache_set c now key v ttl)) now' key) = Some v"
    by (rule set_get_roundtrip)
next
  fix t
  assume "effective_ttl c ttl = Some t \<and> real_of_int t < now' - now"
  with assms set_get_expired[where c=c and ttl=ttl and t=t and now=now and now'=now' and key=key and v=v]
  show "fst (LRUCache_get (snd (LRUCache_set c now key v ttl)) now' key) = None"
    and "key \<notin> set (od_keys (cache (snd (LRUCache_get (snd (LRUCache_set c now key v ttl)) now' key))))"
    by simp_all
next
  fix lru x rest
  assume h: "cache c = (lru, x) # rest \<and> distinct (od_keys (cache c)) \<and>
        int (length (cache c)) = max_size c \<and> key \<notin> set (od_keys (cache c))"
  then have h1: "cache c = (lru, x) # rest" and h2: "distinct (od_keys (cache c))"
    and h3: "int (length (cache c)) = max_size c" and h4: "key \<notin> set (od_keys (cache c))"
    by blast+
  show "od_keys (cache (snd (LRUCache_set c now key v ttl))) = od_keys rest @ [key]"
    by (rule set_eviction_effect(3)[OF h1 h2 h3 h4])
  show "fst (LRUCache_get (snd (LRUCache_set c now key v ttl)) now' lru) = None"
    by (rule set_eviction_effect(1)[OF h1 h2 h3 h4])
  fix k assume "k \<in> set (od_keys rest)"
  then show "fst (LRUCache_get (snd (LRUCache_set c now key v ttl)) now' k) =
           fst (LRUCache_get c now' k)"
    by (rule set_eviction_effect(2)[OF h1 h2 h3 h4])
next
  fix k
  assume "distinct (od_keys (cache c)) \<and> fst (LRUCache_get c now k) \<noteq> None"
  then show "od_keys (cache (snd (LRUCache_get c now k))) =
        filter (\<lambda>k'. k' \<noteq> k) (od_keys (cache c)) @ [k]"
    by (simp add: get_hit_refreshes)
qed (simp_all add: assms set_ok)

text \<open>
  In \<open>cache_ab\<close> the key \<open>b\<close> is the oldest.  Storing \<open>c\<close> evicts \<open>b\<close>; \<open>a\<close> and
  \<open>c\<close> answer, and \<open>c\<close> is a miss 3601 seconds later.
\<close>

lemma cache_ab_eval:
  "cache cache_ab = [(''b'', 2), (''a'', 1)]" "max_size cache_ab = 2"
  "default_ttl cache_ab = Some 3600"
  "ttls cache_ab ''a'' = Some (Some 3600)" "timestamps cache_ab ''a'' = Some 0"
  by (simp_all add: cache_ab_def LRUCache_init_def LRUCache_set_def LRUCache_get_def
      evict.simps od_keys_def od_assign_def od_move_to_end_def LRUCache_remove_def od_pop_def
      effective_ttl_def Let_def)

theorem LRUCache_contract_witness:
  "fst (LRUCache_get (snd (LRUCache_set cache_ab 3 ''c'' 3 None)) 3 ''c'') = Some 3 \<and>
   fst (LRUCache_get (snd (LRUCache_set cache_ab 3 ''c'' 3 None)) 3604 ''c'') = None \<and>
   od_keys (cache (snd (LRUCache_set cache_ab 3 ''c'' 3 None))) = [''a'', ''c''] \<and>
   fst (LRUCache_get (snd (LRUCache_set cache_ab 3 ''c'' 3 None)) 3 ''b'') = None \<and>
   fst (LRUCache_get (snd (LRUCache_set cache_ab 3 ''c'' 3 None)) 3 ''a'') = Some 1 \<and>
   od_keys (cache (snd (LRUCache_get cache_ab 3 ''b''))) = [''a'', ''b'']"
proof -
  have m: "0 < max_size cache_ab" by (simp add: cache_ab_eval)
  note c3 = LRUCache_contract[OF m, where ttl=None and now=3 and now'=3 and key="''c''" and v=3]
  note c4 = LRUCache_contract[OF m, where ttl=None and now=3 and now'=3604 and key="''c''" and v=3]
  have e: "effective_ttl cache_ab None = Some 3600"
    by (simp add: effective_ttl_def cache_ab_eval)
  have h: "fst (LRUCache_get cache_ab 3 ''b'') \<noteq> None"
    by (simp add: cache_ab_def LRUCache_init_def LRUCache_set_def LRUCache_get_def
      evict.simps od_keys_def od_assign_def od_move_to_end_def LRUCache_remove_def od_pop_def
      effective_ttl_def Let_def)
  have a: "fst (LRUCache_get cache_ab 3 ''a'') = Some 1"
    by (simp add: LRUCache_get_def cache_ab_eval od_keys_def)
  from c3 c4 e h a show ?thesis
    by (simp add: cache_ab_eval od_keys_def)
qed

section \<open>Properties of the neighbour graph\<close>

lemmas fl_eval =
  fl_def binary_exponent_def pow2_def round_half_even_def bit_length.simps Let_def




lemma fl_three: "fl 3 = 3"
  by (simp add: fl_eval)

lemma fl_three_tenths: "fl (3 / 10) = 5404319552844595 / 2 ^ 54"
  by (simp add: fl_eval)



lemma fl_nine_tenths: "fl (9 / 10) = 8106479329266893 / 2 ^ 53"
  by (simp add: fl_eval)



text \<open>
  The products are rounded: three shared diseases give \<open>0.8999999999999999\<close>, which
  is below the double \<open>0.9\<close>, so that a pair sharing three diseases and nothing else
  has no edge at the edge threshold \<^verbatim>\<open>0.9\<close>.
\<close>

lemma three_diseases_strength:
  "category_strength (fl (3 / 10)) 3 = 8106479329266892 / 2 ^ 53"
  unfolding category_strength_def fmul_def fl_three_tenths
  by (simp add: fl_three) (simp add: fl_eval)

lemma three_diseases_below_threshold:
  "final_strength
     (relations_of it [] [] [''d1'', ''d2'', ''d3''] [''d1'', ''d2'', ''d3''] [] []) < fl (9 / 10)"
proof -
  have "relations_of it [] [] [''d1'', ''d2'', ''d3''] [''d1'', ''d2'', ''d3''] [] [] =
      [\<lparr>rel_type = ''shared_diseases'', rel_strength = 8106479329266892 / 2 ^ 53,
        rel_items = take 3 (it [''d1'', ''d2'', ''d3''])\<rparr>]"
    using three_diseases_strength
    by (simp add: relations_of_def shared_category_def numeral_3_eq_3)
  moreover have "fadd 0 (8106479329266892 / 2 ^ 53) = 8106479329266892 / 2 ^ 53"
    by (simp add: fadd_def fl_eval)
  ultimately show ?thesis
    unfolding fl_nine_tenths by (simp add: final_strength_def total_strength_def)
qed



















section \<open>Properties of the diversity selection\<close>

declare mmr_loop.simps [simp del]

lemma scan_candidates_keeps_best:
  "scan_candidates V lam sel i cands best = Inr r \<Longrightarrow> best \<noteq> None \<Longrightarrow> r \<noteq> None"
proof (induction cands arbitrary: i best)
  case Nil then show ?case by simp
next
  case (Cons c cs)
  from Cons.prems(1) obtain ms where ms: "candidate_max_sim V sel c = Inr ms"
    by (cases "candidate_max_sim V sel c") auto
  from Cons.prems ms show ?case
    by (auto simp: Let_def split: option.splits if_splits dest!: Cons.IH)
qed

lemma scan_candidates_some:
  "scan_candidates V lam sel i (c # cs) None = Inr r \<Longrightarrow> r \<noteq> None"
proof -
  assume a: "scan_candidates V lam sel i (c # cs) None = Inr r"
  then obtain ms where ms: "candidate_max_sim V sel c = Inr ms"
    by (cases "candidate_max_sim V sel c") auto
  with a have "scan_candidates V lam sel (Suc i) cs
      (Some (i, lam * score c - (1 - lam) * ms, 1 - ms)) = Inr r"
    by (simp add: Let_def)
  then show ?thesis by (rule scan_candidates_keeps_best) simp
qed

lemma unscored_mark [simp]:
  "unscored (mark_first r) = unscored r" "unscored (mark_chosen r m d) = unscored r"
  by (simp_all add: unscored_def mark_first_def mark_chosen_def)

lemma mset_pop_at:
  assumes i: "i < length xs"
  shows "mset (pop_at i xs) + {#xs ! i#} = mset xs"
proof -
  have "mset (take i xs @ (xs ! i) # drop (Suc i) xs) = mset xs"
    by (simp only: id_take_nth_drop[OF i, symmetric])
  then show ?thesis by (simp add: pop_at_def)
qed

lemma mmr_loop_stop:
  "\<not> (int (length sel) < limit \<and> cands \<noteq> []) \<Longrightarrow> mmr_loop V lam limit sel cands = Inr sel"
  by (subst mmr_loop.simps) simp

lemma mmr_loop_err:
  "int (length sel) < limit \<Longrightarrow> cands \<noteq> [] \<Longrightarrow>
   scan_candidates V lam sel 0 cands None = Inl e \<Longrightarrow> mmr_loop V lam limit sel cands = Inl e"
  by (subst mmr_loop.simps) simp

lemma mmr_loop_none:
  "int (length sel) < limit \<Longrightarrow> cands \<noteq> [] \<Longrightarrow>
   scan_candidates V lam sel 0 cands None = Inr None \<Longrightarrow> mmr_loop V lam limit sel cands = Inr sel"
  by (subst mmr_loop.simps) simp

lemma mmr_loop_step:
  "int (length sel) < limit \<Longrightarrow> cands \<noteq> [] \<Longrightarrow>
   scan_candidates V lam sel 0 cands None = Inr (Some (i, m, d)) \<Longrightarrow>
   mmr_loop V lam limit sel cands =
     mmr_loop V lam limit (sel @ [mark_chosen (cands ! i) m d]) (pop_at i cands)"
  by (subst mmr_loop.simps) simp

text \<open>The cases of one round of the loop.\<close>

lemma mmr_loop_cases:
  assumes run: "mmr_loop V lam limit sel cands = Inr out"
  obtains (stop) "\<not> (int (length sel) < limit \<and> cands \<noteq> [])" "out = sel"
  | (step) i m d where "int (length sel) < limit" "cands \<noteq> []"
      "scan_candidates V lam sel 0 cands None = Inr (Some (i, m, d))" "i < length cands"
      "mmr_loop V lam limit (sel @ [mark_chosen (cands ! i) m d]) (pop_at i cands) = Inr out"
proof (cases "int (length sel) < limit \<and> cands \<noteq> []")
  case False
  have "out = sel" using run mmr_loop_stop[OF False, of V lam] by simp
  with False show ?thesis by (rule stop)
next
  case True
  then obtain c cs where cc: "cands = c # cs" by (cases cands) auto
  show ?thesis
  proof (cases "scan_candidates V lam sel 0 cands None")
    case (Inl e)
    with run True mmr_loop_err[of sel limit cands V lam e] show ?thesis by simp
  next
    case (Inr r)
    with cc scan_candidates_some[of V lam sel 0 c cs r] obtain i m d where imd: "r = Some (i, m, d)"
      by (cases r) auto
    from scan_candidates_index[OF Inr[unfolded imd]] have i: "i < length cands" by simp
    have sc: "scan_candidates V lam sel 0 cands None = Inr (Some (i, m, d))"
      using Inr imd by simp
    have t1: "int (length sel) < limit" and t2: "cands \<noteq> []" using True by simp_all
    have "mmr_loop V lam limit (sel @ [mark_chosen (cands ! i) m d]) (pop_at i cands) = Inr out"
      using run mmr_loop_step[OF t1 t2 sc] by simp
    with t1 t2 sc i show ?thesis by (rule step)
  qed
qed

lemma mmr_loop_mset:
  "mmr_loop V lam limit sel cands = Inr out \<Longrightarrow> int (length sel + length cands) \<le> limit \<Longrightarrow>
     mset (map unscored out) = mset (map unscored sel) + mset (map unscored cands)"
proof (induction V lam limit sel cands arbitrary: out rule: mmr_loop.induct)
  case (1 V lam limit sel cands)
  from "1.prems"(1) show ?case
  proof (cases rule: mmr_loop_cases)
    case stop
    with "1.prems"(2) have "cands = []" by (cases cands) auto
    with stop show ?thesis by simp
  next
    case (step i m d)
    have len: "int (length (sel @ [mark_chosen (cands ! i) m d]) + length (pop_at i cands)) \<le> limit"
      using "1.prems"(2) step(4) by (simp add: pop_at_def)
    have "mset (map unscored out) =
        mset (map unscored (sel @ [mark_chosen (cands ! i) m d])) + mset (map unscored (pop_at i cands))"
      using "1.IH"[OF conjI[OF step(1,2)] step(3) refl refl refl step(5) len] .
    also have "\<dots> = mset (map unscored sel) + image_mset unscored (mset (pop_at i cands) + {#cands ! i#})"
      by simp
    also have "\<dots> = mset (map unscored sel) + mset (map unscored cands)"
      by (simp only: mset_pop_at[OF step(4)] mset_map)
    finally show ?thesis .
  qed
qed

lemma mmr_loop_prefix:
  "mmr_loop V lam limit sel cands = Inr out \<Longrightarrow> \<exists>extra. out = sel @ extra"
proof (induction V lam limit sel cands arbitrary: out rule: mmr_loop.induct)
  case (1 V lam limit sel cands)
  from "1.prems"(1) show ?case
  proof (cases rule: mmr_loop_cases)
    case stop
    then show ?thesis by simp
  next
    case (step i m d)
    from "1.IH"[OF conjI[OF step(1,2)] step(3) refl refl refl step(5)] show ?thesis by auto
  qed
qed

lemma mmr_loop_subset:
  "mmr_loop V lam limit sel cands = Inr out \<Longrightarrow>
     set (map unscored out) \<subseteq> set (map unscored sel) \<union> set (map unscored cands)"
proof (induction V lam limit sel cands arbitrary: out rule: mmr_loop.induct)
  case (1 V lam limit sel cands)
  from "1.prems"(1) show ?case
  proof (cases rule: mmr_loop_cases)
    case stop
    then show ?thesis by auto
  next
    case (step i m d)
    have "set (pop_at i cands) \<subseteq> set cands"
      by (auto simp: pop_at_def dest: in_set_takeD in_set_dropD)
    then have a: "unscored ` set (pop_at i cands) \<subseteq> unscored ` set cands"
      by (rule image_mono)
    have b: "unscored (cands ! i) \<in> unscored ` set cands" using step(4) by simp
    from "1.IH"[OF conjI[OF step(1,2)] step(3) refl refl refl step(5)]
    have "unscored ` set out \<subseteq>
        insert (unscored (cands ! i)) (unscored ` set sel \<union> unscored ` set (pop_at i cands))"
      by simp
    also have "\<dots> \<subseteq> unscored ` set sel \<union> unscored ` set cands"
      using a b by auto
    finally show ?thesis by simp
  qed
qed


lemma max_similarity_ok:
  "(\<forall>k v. V k = Some v \<longrightarrow> length v = d) \<Longrightarrow> length cv = d \<Longrightarrow>
     \<exists>s. max_similarity V cv sels ms = Inr s"
  by (induction sels arbitrary: ms) (auto simp: cosine_def split: option.splits)

lemma candidate_max_sim_ok:
  "(\<forall>k v. V k = Some v \<longrightarrow> length v = d) \<Longrightarrow> \<exists>s. candidate_max_sim V sel c = Inr s"
  using max_similarity_ok[of V d]
  by (auto simp: candidate_max_sim_def split: option.splits)

lemma scan_candidates_ok:
  assumes u: "\<forall>k v. V k = Some v \<longrightarrow> length v = d"
  shows "\<exists>r. scan_candidates V lam sel i cs best = Inr r"
proof (induction cs arbitrary: i best)
  case Nil
  then show ?case by simp
next
  case (Cons c cs)
  from candidate_max_sim_ok[OF u, of sel c] obtain s where "candidate_max_sim V sel c = Inr s" ..
  then show ?case using Cons.IH by (simp add: Let_def)
qed

lemma mmr_loop_ok:
  "(\<forall>k v. V k = Some v \<longrightarrow> length v = d) \<Longrightarrow> \<exists>out. mmr_loop V lam limit sel cands = Inr out"
proof (induction V lam limit sel cands rule: mmr_loop.induct)
  case (1 V lam limit sel cands)
  note u = "1.prems"
  show ?case
  proof (cases "int (length sel) < limit \<and> cands \<noteq> []")
    case False
    then show ?thesis by (simp add: mmr_loop_stop)
  next
    case True
    then have t1: "int (length sel) < limit" and t2: "cands \<noteq> []" by simp_all
    from scan_candidates_ok[OF u, of lam sel 0 cands None]
    obtain r where r: "scan_candidates V lam sel 0 cands None = Inr r" ..
    show ?thesis
    proof (cases r)
      case None
      with r show ?thesis by (simp add: mmr_loop_none[OF t1 t2])
    next
      case (Some t)
      then obtain i m dv where imd: "r = Some (i, m, dv)" by (cases t) auto
      with r have sc: "scan_candidates V lam sel 0 cands None = Inr (Some (i, m, dv))" by simp
      from "1.IH"[OF True r imd refl refl u] show ?thesis
        by (simp add: mmr_loop_step[OF t1 t2 sc])
    qed
  qed
qed

lemma name_encodes_unscored: "name_encodes e (unscored r) = name_encodes e r"
  by (simp add: name_encodes_def unscored_def)

lemma build_vectors_ok:
  assumes dim: "fixed_dimension e d"
  shows "(\<forall>r \<in> set rs. name_encodes e r) \<Longrightarrow> (\<forall>k v. V0 k = Some v \<longrightarrow> length v = d) \<Longrightarrow>
    \<exists>V. build_vectors e rs V0 = Inr V \<and> (\<forall>k v. V k = Some v \<longrightarrow> length v = d)"
proof (induction rs arbitrary: V0)
  case Nil
  then show ?case by simp
next
  case (Cons r rs)
  show ?case
  proof (cases "display_text (item_payload r) = []")
    case True
    with Cons show ?thesis by simp
  next
    case False
    with Cons.prems(1) obtain vec where
      v: "encode_text e (take 100 (display_text (item_payload r))) = Inr vec"
      by (auto simp: name_encodes_def split: sum.splits)
    with dim have l: "length vec = d" by (simp add: fixed_dimension_def)
    let ?V1 = "if vec \<noteq> [] \<and> length vec > 10 then V0(item_id r \<mapsto> vec) else V0"
    have "\<forall>k v. ?V1 k = Some v \<longrightarrow> length v = d"
      using Cons.prems(2) l by auto
    from Cons.IH[OF _ this] Cons.prems(1) obtain V where
      "build_vectors e rs ?V1 = Inr V \<and> (\<forall>k v. V k = Some v \<longrightarrow> length v = d)" by auto
    with False v show ?thesis by (simp add: Let_def)
  qed
qed

lemma build_vectors_encodes:
  "build_vectors e rs V0 = Inr V \<Longrightarrow> \<forall>r \<in> set rs. name_encodes e r"
proof (induction rs arbitrary: V0)
  case Nil
  then show ?case by simp
next
  case (Cons r rs)
  show ?case
  proof (cases "display_text (item_payload r) = []")
    case True
    with Cons.prems have "build_vectors e rs V0 = Inr V" by simp
    from Cons.IH[OF this] True show ?thesis by (simp add: name_encodes_def)
  next
    case False
    with Cons.prems obtain vec where
      v: "encode_text e (take 100 (display_text (item_payload r))) = Inr vec"
      by (cases "encode_text e (take 100 (display_text (item_payload r)))") (auto simp: Let_def)
    with False Cons.prems have "build_vectors e rs
        (if vec \<noteq> [] \<and> length vec > 10 then V0(item_id r \<mapsto> vec) else V0) = Inr V"
      by (simp add: Let_def)
    from Cons.IH[OF this] v show ?thesis by (simp add: name_encodes_def)
  qed
qed

lemma apply_mmr_ok:
  assumes dim: "fixed_dimension e d" and ok: "\<forall>r \<in> set rs. name_encodes e r"
  shows "\<exists>out. apply_mmr e rs lam k = Inr out"
proof (cases rs)
  case Nil
  then show ?thesis by (simp add: apply_mmr_def)
next
  case (Cons r rest)
  from build_vectors_ok[OF dim ok, of Map.empty] obtain V where
    V: "build_vectors e rs Map.empty = Inr V" "\<forall>k v. V k = Some v \<longrightarrow> length v = d" by auto
  from mmr_loop_ok[OF V(2), of lam "min k (int (length rs))" "[mark_first r]" rest]
  show ?thesis using V(1) Cons by (simp add: apply_mmr_def)
qed

lemma apply_mmr_Inr:
  assumes "apply_mmr e (r # rest) lam k = Inr out"
  obtains V where "build_vectors e (r # rest) Map.empty = Inr V"
    "mmr_loop V lam (min k (int (length (r # rest)))) [mark_first r] rest = Inr out"
  using assms by (auto simp: apply_mmr_def split: sum.splits)

lemma apply_mmr_mset:
  assumes run: "apply_mmr e rs lam k = Inr out" and k: "int (length rs) \<le> k"
  shows "mset (map unscored out) = mset (map unscored rs)"
proof (cases rs)
  case Nil
  with run show ?thesis by (simp add: apply_mmr_def)
next
  case (Cons r rest)
  from run[unfolded Cons] obtain V where
    l: "mmr_loop V lam (min k (int (length (r # rest)))) [mark_first r] rest = Inr out"
    by (rule apply_mmr_Inr)
  have "int (length [mark_first r] + length rest) \<le> min k (int (length (r # rest)))"
    using k Cons by simp
  from mmr_loop_mset[OF l this] Cons show ?thesis by simp
qed

lemma apply_mmr_subset:
  assumes run: "apply_mmr e rs lam k = Inr out"
  shows "set (map unscored out) \<subseteq> set (map unscored rs)"
proof (cases rs)
  case Nil
  with run show ?thesis by (simp add: apply_mmr_def)
next
  case (Cons r rest)
  from run[unfolded Cons] obtain V where
    l: "mmr_loop V lam (min k (int (length (r # rest)))) [mark_first r] rest = Inr out"
    by (rule apply_mmr_Inr)
  from mmr_loop_subset[OF l] Cons show ?thesis by simp
qed

lemma apply_mmr_head:
  assumes run: "apply_mmr e (r # rest) lam k = Inr out"
  shows "\<exists>more. out = mark_first r # more"
proof -
  from run obtain V where
    l: "mmr_loop V lam (min k (int (length (r # rest)))) [mark_first r] rest = Inr out"
    by (rule apply_mmr_Inr)
  from mmr_loop_prefix[OF l] show ?thesis by simp
qed

lemma apply_mmr_encodes:
  assumes run: "apply_mmr e rs lam k = Inr out"
  shows "\<forall>r \<in> set rs. name_encodes e r"
proof (cases rs)
  case Nil
  then show ?thesis by simp
next
  case (Cons r rest)
  from run[unfolded Cons] obtain V where "build_vectors e (r # rest) Map.empty = Inr V"
    by (rule apply_mmr_Inr)
  from build_vectors_encodes[OF this] Cons show ?thesis by simp
qed

lemma apply_mmr_again:
  assumes run: "apply_mmr e rs lam k = Inr L" and dim: "fixed_dimension e d"
  shows "\<exists>L'. apply_mmr e L lam (int (length L)) = Inr L' \<and>
              mset (map unscored L') = mset (map unscored L)"
proof -
  have "\<forall>r \<in> set L. name_encodes e r"
  proof
    fix r assume "r \<in> set L"
    then have "unscored r \<in> set (map unscored rs)"
      using apply_mmr_subset[OF run] by auto
    then obtain r' where "r' \<in> set rs" "unscored r' = unscored r" by auto
    with apply_mmr_encodes[OF run] have "name_encodes e (unscored r)"
      by (metis name_encodes_unscored)
    then show "name_encodes e r" by (simp add: name_encodes_unscored)
  qed
  from apply_mmr_ok[OF dim this, of lam "int (length L)"] obtain L' where
    L': "apply_mmr e L lam (int (length L)) = Inr L'" ..
  from apply_mmr_mset[OF L'] have "mset (map unscored L') = mset (map unscored L)" by simp
  with L' show ?thesis by blast
qed


lemma apply_mmr_single:
  assumes "name_encodes e r"
  shows "apply_mmr e [r] lam k = Inr [mark_first r]"
proof -
  have "\<exists>V. build_vectors e [r] Map.empty = Inr V"
  proof (cases "display_text (item_payload r) = []")
    case True
    then show ?thesis by simp
  next
    case False
    with assms obtain vec where "encode_text e (take 100 (display_text (item_payload r))) = Inr vec"
      by (auto simp: name_encodes_def split: sum.splits)
    with False show ?thesis by (simp add: Let_def)
  qed
  then obtain V where "build_vectors e [r] Map.empty = Inr V" ..
  then show ?thesis by (simp add: apply_mmr_def mmr_loop_stop)
qed

lemma sorted_head_top:
  "sorted_wrt (\<lambda>a b. score a \<ge> score b) (r # rs) \<Longrightarrow> x \<in> set (r # rs) \<Longrightarrow> score x \<le> score r"
  by auto

lemma mmr_lambda_values:
  "mmr_lambda_for (Some ''aligned'') = 7 / 10" "mmr_lambda_for None = 7 / 10"
  "mmr_lambda_for (Some ''partial'') = 5 / 10" "mmr_lambda_for (Some ''divergent'') = 3 / 10"
  by (simp_all add: mmr_lambda_for_def MMR_LAMBDA_def)

lemma max_similarity_cong:
  "(\<forall>s \<in> set sels. V (item_id s) = V' (item_id s)) \<Longrightarrow>
     max_similarity V cv sels ms = max_similarity V' cv sels ms"
  by (induction sels arbitrary: ms) (auto split: option.splits sum.splits)

lemma candidate_max_sim_cong:
  "V (item_id c) = V' (item_id c) \<Longrightarrow> (\<forall>s \<in> set sel. V (item_id s) = V' (item_id s)) \<Longrightarrow>
     candidate_max_sim V sel c = candidate_max_sim V' sel c"
  using max_similarity_cong[of sel V V']
  by (simp add: candidate_max_sim_def split: option.splits)

lemma scan_candidates_cong:
  "(\<forall>s \<in> set sel. V (item_id s) = V' (item_id s)) \<Longrightarrow>
   (\<forall>c \<in> set cands. V (item_id c) = V' (item_id c)) \<Longrightarrow>
     scan_candidates V lam sel idx cands best = scan_candidates V' lam sel idx cands best"
proof (induction cands arbitrary: idx best)
  case Nil
  then show ?case by simp
next
  case (Cons c cs)
  have c: "candidate_max_sim V sel c = candidate_max_sim V' sel c"
    using Cons.prems by (intro candidate_max_sim_cong) simp_all
  have r: "\<And>i b. scan_candidates V lam sel i cs b = scan_candidates V' lam sel i cs b"
    using Cons.IH Cons.prems by simp
  show ?case
    by (cases "candidate_max_sim V' sel c") (simp_all add: c r Let_def)
qed

lemma candidate_max_sim_id:
  "item_id c' = item_id c \<Longrightarrow> candidate_max_sim V sel c' = candidate_max_sim V sel c"
  by (simp add: candidate_max_sim_def)

lemma scan_candidates_best:
  "scan_candidates V lam sel idx cands best = Inr (Some (j, m, d)) \<Longrightarrow>
     (\<forall>c \<in> set cands. \<exists>ms. candidate_max_sim V sel c = Inr ms \<and>
        lam * score c - (1 - lam) * ms \<le> m) \<and>
     (\<forall>b bm bd. best = Some (b, bm, bd) \<longrightarrow> bm \<le> m) \<and>
     (best = Some (j, m, d) \<or>
      (idx \<le> j \<and> j < idx + length cands \<and>
       (\<exists>ms. candidate_max_sim V sel (cands ! (j - idx)) = Inr ms \<and>
             m = lam * score (cands ! (j - idx)) - (1 - lam) * ms \<and> d = 1 - ms)))"
proof (induction cands arbitrary: idx best)
  case Nil
  then show ?case by simp
next
  case (Cons c cs)
  from Cons.prems obtain ms where ms: "candidate_max_sim V sel c = Inr ms"
    by (cases "candidate_max_sim V sel c") auto
  define v where "v = lam * score c - (1 - lam) * ms"
  define best' where "best' = (case best of
                   None \<Rightarrow> Some (idx, v, 1 - ms)
                 | Some (best_idx, best_mmr, best_div) \<Rightarrow>
                     if v > best_mmr then Some (idx, v, 1 - ms) else best)"
  have run: "scan_candidates V lam sel (Suc idx) cs best' = Inr (Some (j, m, d))"
    unfolding best'_def v_def using Cons.prems ms by (simp add: Let_def)
  note ih = Cons.IH[OF run]
  from ih have all: "\<forall>c \<in> set cs. \<exists>ms. candidate_max_sim V sel c = Inr ms \<and>
        lam * score c - (1 - lam) * ms \<le> m" by blast
  from ih have bound: "\<forall>b bm bd. best' = Some (b, bm, bd) \<longrightarrow> bm \<le> m" by blast
  from ih have pos: "best' = Some (j, m, d) \<or>
      (Suc idx \<le> j \<and> j < Suc idx + length cs \<and>
       (\<exists>ms. candidate_max_sim V sel (cs ! (j - Suc idx)) = Inr ms \<and>
             m = lam * score (cs ! (j - Suc idx)) - (1 - lam) * ms \<and> d = 1 - ms))" by blast
  obtain b' bm' bd' where b': "best' = Some (b', bm', bd')" and vb: "v \<le> bm'"
    and old: "\<forall>b bm bd. best = Some (b, bm, bd) \<longrightarrow> bm \<le> bm'"
    and which: "best' = best \<or> best' = Some (idx, v, 1 - ms)"
  proof (cases best)
    case None
    then have "best' = Some (idx, v, 1 - ms)" by (simp add: best'_def)
    with None that show ?thesis by simp
  next
    case (Some t)
    obtain b bm bd where t: "t = (b, bm, bd)" by (cases t)
    show ?thesis
    proof (cases "v > bm")
      case True
      then have "best' = Some (idx, v, 1 - ms)" by (simp add: best'_def Some t)
      with True Some t that show ?thesis by simp
    next
      case False
      then have "best' = Some (b, bm, bd)" by (simp add: best'_def Some t)
      with False Some t that show ?thesis by simp
    qed
  qed
  from bound b' have bm: "bm' \<le> m" by simp
  have 1: "\<forall>c' \<in> set (c # cs). \<exists>ms. candidate_max_sim V sel c' = Inr ms \<and>
        lam * score c' - (1 - lam) * ms \<le> m"
    using all ms vb bm by (auto simp: v_def)
  have 2: "\<forall>b bm bd. best = Some (b, bm, bd) \<longrightarrow> bm \<le> m"
  proof (intro allI impI)
    fix b bmm bd assume "best = Some (b, bmm, bd)"
    with old have "bmm \<le> bm'" by blast
    with bm show "bmm \<le> m" by simp
  qed
  have 3: "best = Some (j, m, d) \<or>
      (idx \<le> j \<and> j < idx + length (c # cs) \<and>
       (\<exists>ms. candidate_max_sim V sel ((c # cs) ! (j - idx)) = Inr ms \<and>
             m = lam * score ((c # cs) ! (j - idx)) - (1 - lam) * ms \<and> d = 1 - ms))"
  proof (cases "best' = Some (j, m, d)")
    case True
    from which show ?thesis
    proof
      assume "best' = best"
      with True show ?thesis by simp
    next
      assume "best' = Some (idx, v, 1 - ms)"
      with True have "j = idx" "m = v" "d = 1 - ms" by simp_all
      then show ?thesis using ms by (simp add: v_def)
    qed
  next
    case False
    with pos have p: "Suc idx \<le> j" "j < Suc idx + length cs"
      "\<exists>ms. candidate_max_sim V sel (cs ! (j - Suc idx)) = Inr ms \<and>
             m = lam * score (cs ! (j - Suc idx)) - (1 - lam) * ms \<and> d = 1 - ms" by blast+
    from p(1) have "j - idx = Suc (j - Suc idx)" by simp
    then have "(c # cs) ! (j - idx) = cs ! (j - Suc idx)" by simp
    with p show ?thesis by simp
  qed
  from 1 2 3 show ?case by blast
qed

lemma scan_candidates_keep:
  "(\<forall>c \<in> set cands. \<exists>ms. candidate_max_sim V sel c = Inr ms \<and>
        lam * score c - (1 - lam) * ms \<le> m) \<Longrightarrow>
     scan_candidates V lam sel idx cands (Some (b, m, d)) = Inr (Some (b, m, d))"
proof (induction cands arbitrary: idx)
  case Nil
  then show ?case by simp
next
  case (Cons c cs)
  from Cons.prems obtain ms where ms: "candidate_max_sim V sel c = Inr ms"
    "lam * score c - (1 - lam) * ms \<le> m" by auto
  have "scan_candidates V lam sel (Suc idx) cs (Some (b, m, d)) = Inr (Some (b, m, d))"
    using Cons.IH Cons.prems by simp
  with ms show ?case by (simp add: Let_def)
qed

lemma unscored_eq_fields:
  "unscored y = unscored c \<Longrightarrow> item_id y = item_id c \<and> score y = score c \<and>
     item_payload y = item_payload c"
  by (cases y, cases c) (simp add: unscored_def)

lemma mark_chosen_twice: "mark_chosen (mark_chosen c m d) m d = mark_chosen c m d"
  by (simp add: mark_chosen_def)

lemma mark_first_twice: "mark_first (mark_first r) = mark_first r"
  by (simp add: mark_first_def)

lemma set_pop_at: "set (pop_at i xs) \<subseteq> set xs"
  by (auto simp: pop_at_def dest: in_set_takeD in_set_dropD)

lemma mmr_loop_rerun:
  "mmr_loop V lam limit sel cands = Inr out \<Longrightarrow>
     \<exists>extra. out = sel @ extra \<and>
       set (map unscored extra) \<subseteq> set (map unscored cands) \<and>
       mmr_loop V lam (int (length out)) sel extra = Inr out"
proof (induction V lam limit sel cands arbitrary: out rule: mmr_loop.induct)
  case (1 V lam limit sel cands)
  from "1.prems"(1) show ?case
  proof (cases rule: mmr_loop_cases)
    case stop
    have "mmr_loop V lam (int (length sel)) sel [] = Inr sel"
      by (rule mmr_loop_stop) simp
    with stop show ?thesis by simp
  next
    case (step i m d)
    define x where "x = mark_chosen (cands ! i) m d"
    from "1.IH"[OF conjI[OF step(1,2)] step(3) refl refl refl step(5)]
    obtain extra where ex: "out = (sel @ [x]) @ extra"
      "set (map unscored extra) \<subseteq> set (map unscored (pop_at i cands))"
      "mmr_loop V lam (int (length out)) (sel @ [x]) extra = Inr out"
      unfolding x_def by blast
    note best = scan_candidates_best[OF step(3)]
    from best have all: "\<forall>c \<in> set cands. \<exists>ms. candidate_max_sim V sel c = Inr ms \<and>
        lam * score c - (1 - lam) * ms \<le> m" by blast
    from best obtain ms where ms: "candidate_max_sim V sel (cands ! i) = Inr ms"
      "m = lam * score (cands ! i) - (1 - lam) * ms" "d = 1 - ms" by auto
    have xi: "item_id x = item_id (cands ! i)" "score x = score (cands ! i)"
      by (simp_all add: x_def mark_chosen_def)
    have cx: "candidate_max_sim V sel x = Inr ms"
      using ms(1) candidate_max_sim_id[OF xi(1), of V sel] by simp
    have rest: "\<forall>y \<in> set extra. \<exists>ms. candidate_max_sim V sel y = Inr ms \<and>
        lam * score y - (1 - lam) * ms \<le> m"
    proof
      fix y assume "y \<in> set extra"
      then have "unscored y \<in> set (map unscored (pop_at i cands))" using ex(2) by auto
      then obtain c where c: "c \<in> set (pop_at i cands)" "unscored y = unscored c" by auto
      from c(1) set_pop_at[of i cands] have cin: "c \<in> set cands" by auto
      from unscored_eq_fields[OF c(2)] have f: "item_id y = item_id c" "score y = score c"
        by simp_all
      from all cin obtain ms' where "candidate_max_sim V sel c = Inr ms'"
        "lam * score c - (1 - lam) * ms' \<le> m" by blast
      then show "\<exists>ms. candidate_max_sim V sel y = Inr ms \<and> lam * score y - (1 - lam) * ms \<le> m"
        using candidate_max_sim_id[OF f(1), of V sel] f(2) by auto
    qed
    have sc: "scan_candidates V lam sel 0 (x # extra) None = Inr (Some (0, m, d))"
      using scan_candidates_keep[OF rest, of "Suc 0" 0 d] cx ms(2,3) xi(2)
      by (simp add: Let_def)
    have len: "int (length sel) < int (length out)" using ex(1) by simp
    have "mmr_loop V lam (int (length out)) sel (x # extra) =
        mmr_loop V lam (int (length out)) (sel @ [mark_chosen ((x # extra) ! 0) m d])
          (pop_at 0 (x # extra))"
      by (rule mmr_loop_step[OF len _ sc]) simp
    also have "\<dots> = mmr_loop V lam (int (length out)) (sel @ [x]) extra"
      by (simp add: pop_at_def x_def mark_chosen_twice)
    finally have rr: "mmr_loop V lam (int (length out)) sel (x # extra) = Inr out"
      using ex(3) by simp
    have "unscored x \<in> set (map unscored cands)"
      using step(4) by (auto simp: x_def)
    moreover have "set (map unscored (pop_at i cands)) \<subseteq> set (map unscored cands)"
      using set_pop_at[of i cands] by auto
    ultimately have sub: "set (map unscored (x # extra)) \<subseteq> set (map unscored cands)"
      using ex(2) by auto
    show ?thesis
      using ex(1) sub rr by (intro exI[of _ "x # extra"]) simp
  qed
qed

lemma mmr_loop_cong:
  "(\<forall>s \<in> set sel. V (item_id s) = V' (item_id s)) \<Longrightarrow>
   (\<forall>c \<in> set cands. V (item_id c) = V' (item_id c)) \<Longrightarrow>
     mmr_loop V lam limit sel cands = mmr_loop V' lam limit sel cands"
proof (induction V lam limit sel cands rule: mmr_loop.induct)
  case (1 V lam limit sel cands)
  have se: "scan_candidates V lam sel 0 cands None = scan_candidates V' lam sel 0 cands None"
    using "1.prems" by (rule scan_candidates_cong)
  show ?case
  proof (cases "int (length sel) < limit \<and> cands \<noteq> []")
    case False
    then show ?thesis by (simp add: mmr_loop_stop)
  next
    case True
    then have t: "int (length sel) < limit" "cands \<noteq> []" by simp_all
    show ?thesis
    proof (cases "scan_candidates V lam sel 0 cands None")
      case (Inl err)
      then have "scan_candidates V' lam sel 0 cands None = Inl err" using se by simp
      then show ?thesis by (simp add: mmr_loop_err[OF t Inl] mmr_loop_err[OF t])
    next
      case (Inr r)
      show ?thesis
      proof (cases r)
        case None
        with Inr have n: "scan_candidates V lam sel 0 cands None = Inr None" by simp
        then have "scan_candidates V' lam sel 0 cands None = Inr None" using se by simp
        then show ?thesis by (simp add: mmr_loop_none[OF t n] mmr_loop_none[OF t])
      next
        case (Some imd)
        obtain i m d where imd: "imd = (i, m, d)" by (cases imd)
        have sc: "scan_candidates V lam sel 0 cands None = Inr (Some (i, m, d))"
          using Inr Some imd by simp
        from scan_candidates_index[OF sc] have i: "i < length cands" by simp
        have a: "\<forall>s \<in> set (sel @ [mark_chosen (cands ! i) m d]). V (item_id s) = V' (item_id s)"
          using "1.prems" i by (auto simp: mark_chosen_def)
        have b: "\<forall>c \<in> set (pop_at i cands). V (item_id c) = V' (item_id c)"
          using "1.prems"(2) set_pop_at[of i cands] by blast
        have "mmr_loop V lam limit (sel @ [mark_chosen (cands ! i) m d]) (pop_at i cands) =
            mmr_loop V' lam limit (sel @ [mark_chosen (cands ! i) m d]) (pop_at i cands)"
          using "1.IH"[OF True sc refl refl refl a b] .
        then show ?thesis
          using mmr_loop_step[OF t sc] mmr_loop_step[OF t sc[unfolded se]] by simp
      qed
    qed
  qed
qed

lemma build_vectors_lookup:
  assumes "build_vectors e rs V0 = Inr V"
    and "\<forall>x \<in> set rs. \<forall>y \<in> set rs. item_id x = item_id y \<longrightarrow>
           display_text (item_payload x) = display_text (item_payload y)"
  shows "(\<forall>k. k \<notin> item_id ` set rs \<longrightarrow> V k = V0 k) \<and>
         (\<forall>x \<in> set rs. V (item_id x) =
            (case name_vector e x of Some v \<Rightarrow> Some v | None \<Rightarrow> V0 (item_id x)))"
  using assms
proof (induction rs arbitrary: V0)
  case Nil
  then show ?case by simp
next
  case (Cons r rs)
  define V1 where "V1 = (case name_vector e r of Some v \<Rightarrow> V0(item_id r \<mapsto> v) | None \<Rightarrow> V0)"
  have run: "build_vectors e rs V1 = Inr V"
    using Cons.prems(1)
    by (auto simp: V1_def name_vector_def Let_def split: sum.splits if_splits)
  have cons: "\<forall>x \<in> set rs. \<forall>y \<in> set rs. item_id x = item_id y \<longrightarrow>
           display_text (item_payload x) = display_text (item_payload y)"
  proof (intro ballI impI)
    fix x y assume xy: "x \<in> set rs" "y \<in> set rs" "item_id x = item_id y"
    have "x \<in> set (r # rs)" "y \<in> set (r # rs)" using xy by simp_all
    from Cons.prems(2)[rule_format, OF this xy(3)]
    show "display_text (item_payload x) = display_text (item_payload y)" .
  qed
  note ih = Cons.IH[OF run cons]
  have same: "\<And>x. x \<in> set rs \<Longrightarrow> item_id x = item_id r \<Longrightarrow> name_vector e x = name_vector e r"
  proof -
    fix x assume x: "x \<in> set rs" "item_id x = item_id r"
    have "x \<in> set (r # rs)" "r \<in> set (r # rs)" using x by simp_all
    from Cons.prems(2)[rule_format, OF this x(2)]
    have "display_text (item_payload x) = display_text (item_payload r)" .
    then show "name_vector e x = name_vector e r" by (simp add: name_vector_def)
  qed
  have V1r: "V1 (item_id r) = (case name_vector e r of Some v \<Rightarrow> Some v | None \<Rightarrow> V0 (item_id r))"
    by (simp add: V1_def split: option.splits)
  have V1o: "\<And>k. k \<noteq> item_id r \<Longrightarrow> V1 k = V0 k"
    by (simp add: V1_def split: option.splits)
  have A: "\<forall>k. k \<notin> item_id ` set (r # rs) \<longrightarrow> V k = V0 k"
    using ih V1o by auto
  have B: "\<forall>x \<in> set (r # rs). V (item_id x) =
            (case name_vector e x of Some v \<Rightarrow> Some v | None \<Rightarrow> V0 (item_id x))"
  proof
    fix x assume x: "x \<in> set (r # rs)"
    have inrs: "\<And>y. y \<in> set rs \<Longrightarrow> V (item_id y) =
            (case name_vector e y of Some v \<Rightarrow> Some v | None \<Rightarrow> V0 (item_id y))"
    proof -
      fix y assume y: "y \<in> set rs"
      with ih have e1: "V (item_id y) =
          (case name_vector e y of Some v \<Rightarrow> Some v | None \<Rightarrow> V1 (item_id y))" by blast
      show "V (item_id y) =
            (case name_vector e y of Some v \<Rightarrow> Some v | None \<Rightarrow> V0 (item_id y))"
      proof (cases "item_id y = item_id r")
        case True
        from same[OF y True] V1r True e1 show ?thesis by (auto split: option.splits)
      next
        case False
        from V1o[OF False] e1 show ?thesis by (simp split: option.splits)
      qed
    qed
    show "V (item_id x) =
            (case name_vector e x of Some v \<Rightarrow> Some v | None \<Rightarrow> V0 (item_id x))"
    proof (cases "x \<in> set rs")
      case True
      then show ?thesis by (rule inrs)
    next
      case False
      with x have xr: "x = r" by simp
      show ?thesis
      proof (cases "item_id r \<in> item_id ` set rs")
        case True
        then obtain y where y: "y \<in> set rs" "item_id y = item_id r" by auto
        from inrs[OF y(1)] same[OF y] y(2) xr show ?thesis by (auto split: option.splits)
      next
        case False
        with ih have "V (item_id r) = V1 (item_id r)" by blast
        with V1r xr show ?thesis by (auto split: option.splits)
      qed
    qed
  qed
  from A B show ?case by blast
qed

lemma apply_mmr_rerun:
  assumes run: "apply_mmr e rs lam k = Inr L"
    and ids: "distinct (map item_id rs)"
  shows "apply_mmr e L lam (int (length L)) = Inr L"
proof (cases rs)
  case Nil
  with run show ?thesis by (simp add: apply_mmr_def)
next
  case (Cons r rest)
  from apply_mmr_Inr[OF run[unfolded Cons]] obtain V where
    V: "build_vectors e (r # rest) Map.empty = Inr V"
    and loop: "mmr_loop V lam (min k (int (length (r # rest)))) [mark_first r] rest = Inr L"
    by blast
  from mmr_loop_rerun[OF loop] obtain extra where
    ex: "L = [mark_first r] @ extra" "set (map unscored extra) \<subseteq> set (map unscored rest)"
    "mmr_loop V lam (int (length L)) [mark_first r] extra = Inr L" by blast
  have cons_rs: "\<forall>x \<in> set rs. \<forall>y \<in> set rs. item_id x = item_id y \<longrightarrow>
           display_text (item_payload x) = display_text (item_payload y)"
    using ids by (auto simp: distinct_map inj_on_def)
  have orig: "\<And>y. y \<in> set L \<Longrightarrow> \<exists>x \<in> set rs. unscored x = unscored y"
  proof -
    fix y assume "y \<in> set L"
    then have "unscored y \<in> set (map unscored rs)" using apply_mmr_subset[OF run] by auto
    then show "\<exists>x \<in> set rs. unscored x = unscored y" by auto
  qed
  have cons_L: "\<forall>x \<in> set L. \<forall>y \<in> set L. item_id x = item_id y \<longrightarrow>
           display_text (item_payload x) = display_text (item_payload y)"
  proof (intro ballI impI)
    fix x y assume xy: "x \<in> set L" "y \<in> set L" "item_id x = item_id y"
    from orig[OF xy(1)] obtain x' where x': "x' \<in> set rs" "unscored x' = unscored x" by blast
    from orig[OF xy(2)] obtain y' where y': "y' \<in> set rs" "unscored y' = unscored y" by blast
    have "item_id x' = item_id y'"
      using unscored_eq_fields[OF x'(2)] unscored_eq_fields[OF y'(2)] xy(3) by simp
    from cons_rs[rule_format, OF x'(1) y'(1) this]
    have "display_text (item_payload x') = display_text (item_payload y')" .
    then show "display_text (item_payload x) = display_text (item_payload y)"
      using unscored_eq_fields[OF x'(2)] unscored_eq_fields[OF y'(2)] by simp
  qed
  have "\<forall>r \<in> set L. name_encodes e r"
  proof
    fix y assume "y \<in> set L"
    from orig[OF this] obtain x where x: "x \<in> set rs" "unscored x = unscored y" by blast
    with apply_mmr_encodes[OF run] have "name_encodes e x" by blast
    then have "name_encodes e (unscored x)" by (simp add: name_encodes_unscored)
    then have "name_encodes e (unscored y)" using x(2) by simp
    then show "name_encodes e y" by (simp add: name_encodes_unscored)
  qed
  then obtain V' where V': "build_vectors e L Map.empty = Inr V'"
  proof -
    assume a: "\<And>V'. build_vectors e L Map.empty = Inr V' \<Longrightarrow> thesis"
    have "\<And>V0. (\<forall>r \<in> set L. name_encodes e r) \<Longrightarrow> \<exists>V'. build_vectors e L V0 = Inr V'"
    proof (induction L)
      case Nil
      then show ?case by simp
    next
      case (Cons y ys)
      show ?case
      proof (cases "display_text (item_payload y) = []")
        case True
        with Cons show ?thesis by simp
      next
        case False
        with Cons.prems obtain vec where
          "encode_text e (take 100 (display_text (item_payload y))) = Inr vec"
          by (auto simp: name_encodes_def split: sum.splits)
        with False Cons show ?thesis by (simp add: Let_def)
      qed
    qed
    with \<open>\<forall>r \<in> set L. name_encodes e r\<close> a show thesis by blast
  qed
  have agree: "\<forall>y \<in> set L. V' (item_id y) = V (item_id y)"
  proof
    fix y assume y: "y \<in> set L"
    from orig[OF y] obtain x where x: "x \<in> set rs" "unscored x = unscored y" by blast
    from unscored_eq_fields[OF x(2)] have f: "item_id x = item_id y"
      "item_payload x = item_payload y" by simp_all
    have nv: "name_vector e x = name_vector e y" using f(2) by (simp add: name_vector_def)
    from build_vectors_lookup[OF V cons_rs[unfolded Cons]] x(1) Cons
    have "V (item_id x) = (case name_vector e x of Some v \<Rightarrow> Some v | None \<Rightarrow> None)" by auto
    moreover from build_vectors_lookup[OF V' cons_L] y
    have "V' (item_id y) = (case name_vector e y of Some v \<Rightarrow> Some v | None \<Rightarrow> None)" by auto
    ultimately show "V' (item_id y) = V (item_id y)" using nv f(1) by simp
  qed
  have L: "L = mark_first r # extra" using ex(1) by simp
  have "apply_mmr e L lam (int (length L)) =
      mmr_loop V' lam (int (length L)) [mark_first (mark_first r)] extra"
    using V' by (simp add: apply_mmr_def L)
  also have "\<dots> = mmr_loop V' lam (int (length L)) [mark_first r] extra"
    by (simp add: mark_first_twice)
  also have "\<dots> = mmr_loop V lam (int (length L)) [mark_first r] extra"
    using agree by (intro mmr_loop_cong) (simp_all add: L)
  finally show ?thesis using ex(3) by simp
qed

lemma mmr_lambda_for_cases:
  "mmr_lambda_for a =
     (if a = Some ''partial'' then 5 / 10 else if a = Some ''divergent'' then 3 / 10 else 7 / 10)"
  by (simp add: mmr_lambda_for_def MMR_LAMBDA_def)

lemma apply_mmr_one:
  "apply_mmr e [r] lam k =
     (if display_text (item_payload r) = [] then Inr [mark_first r]
      else (case encode_text e (take 100 (display_text (item_payload r))) of
              Inl err \<Rightarrow> Inl err
            | Inr v \<Rightarrow> Inr [mark_first r]))"
proof (cases "display_text (item_payload r) = []")
  case True
  then have "name_encodes e r" by (simp add: name_encodes_def)
  from apply_mmr_single[OF this] True show ?thesis by simp
next
  case False
  show ?thesis
  proof (cases "encode_text e (take 100 (display_text (item_payload r)))")
    case (Inl err)
    with False show ?thesis by (simp add: apply_mmr_def Let_def)
  next
    case (Inr v)
    with False have "name_encodes e r" by (simp add: name_encodes_def)
    from apply_mmr_single[OF this] False Inr show ?thesis by simp
  qed
qed

lemma rerank_loop_lookup:
  "rerank_loop e lam k rs acc = Inr rr \<Longrightarrow> distinct (map fst rs) \<Longrightarrow>
     (\<forall>c. c \<notin> fst ` set rs \<longrightarrow> map_of rr c = map_of acc c) \<and>
     (\<forall>(coll, results) \<in> set rs.
        \<exists>ranked. rerank_collection e lam k results = Inr ranked \<and> map_of rr coll = Some ranked)"
proof (induction rs arbitrary: acc)
  case Nil
  then show ?case by simp
next
  case (Cons cr rs)
  obtain coll results where cr: "cr = (coll, results)" by (cases cr)
  from Cons.prems(1) obtain ranked where
    one: "rerank_collection e lam k results = Inr ranked"
    and run: "rerank_loop e lam k rs (od_assign acc coll ranked) = Inr rr"
    unfolding cr by (cases "rerank_collection e lam k results") auto
  from Cons.prems(2) have d: "distinct (map fst rs)" and nin: "coll \<notin> fst ` set rs"
    by (simp_all add: cr)
  note ih = Cons.IH[OF run d]
  from ih nin have here: "map_of rr coll = Some ranked"
    by (simp add: od_assign_lookup)
  have A: "\<forall>c. c \<notin> fst ` set (cr # rs) \<longrightarrow> map_of rr c = map_of acc c"
    using ih by (simp add: cr od_assign_lookup)
  have B: "\<forall>(coll, results) \<in> set (cr # rs).
        \<exists>ranked. rerank_collection e lam k results = Inr ranked \<and> map_of rr coll = Some ranked"
    using ih one here by (simp add: cr)
  from A B show ?case by blast
qed

lemma rerank_results_lookup:
  assumes run: "rerank_results e st = Inr rr" and d: "distinct (map fst (all_results st))"
    and m: "(coll, results) \<in> set (all_results st)" and ne: "results \<noteq> []"
  shows "\<exists>sel. apply_mmr e (take 10 results) (mmr_lambda_for (alignment st)) (top_k st) = Inr sel \<and>
           map_of rr coll = Some (with_mmr_rank sel)"
proof -
  from rerank_loop_lookup[OF run[unfolded rerank_results_def] d] m
  obtain ranked where
    r: "rerank_collection e (mmr_lambda_for (alignment st)) (top_k st) results = Inr ranked"
    "map_of rr coll = Some ranked" by blast
  from r(1) ne obtain sel where
    "apply_mmr e (take 10 results) (mmr_lambda_for (alignment st)) (top_k st) = Inr sel"
    "ranked = with_mmr_rank sel"
    by (cases "apply_mmr e (take 10 results) (mmr_lambda_for (alignment st)) (top_k st)")
       (auto simp: rerank_collection_def)
  with r(2) show ?thesis by blast
qed

lemma fixture_env_dimension: "fixed_dimension fixture_env 11"
  by (simp add: fixed_dimension_def fixture_env_def fixture_encode_def unit_vector_def)

lemma fixture_names_encode:
  "name_encodes fixture_env fixture_protein_a" "name_encodes fixture_env fixture_protein_b"
  by (simp_all add: name_encodes_def fixture_env_def fixture_encode_def)

lemma fixture_sorted:
  "sorted_wrt (\<lambda>a b. score a \<ge> score b) [fixture_protein_a, fixture_protein_b]"
  by (simp add: fixture_protein_a_def fixture_protein_b_def hit_def)


lemma fixture_ranked_state:
  "all_results fixture_ranked_state = [(''proteins'', [fixture_protein_a, fixture_protein_b])]"
  "alignment fixture_ranked_state = None" "top_k fixture_ranked_state = 5"
  by (simp_all add: fixture_ranked_state_def create_initial_state_def sequence_request_def)

text \<open>
  Claim C6, as the code has it.  An empty list gives an empty selection.  When the
  selection of a non-empty list returns, its first item is the first candidate of the
  list, with diversity score 1.0; it is a top-scored candidate when the list is in
  descending order of score, as the vector store returns it.  The selection returns
  when the encoder encodes every name, with vectors of one size.  A single item is
  returned with diversity score 1.0, unless the encoder raises on its name: then the
  selection raises.  Stage 3 runs the selection on the first ten results of every
  collection with the weight of the alignment label of Stage 2: 0.5 for \<open>partial\<close>, 0.3
  for \<open>divergent\<close>, 0.7 for \<open>aligned\<close>, for no alignment and for any other label.
\<close>

theorem apply_mmr_first_item:
  "apply_mmr e [] lam k = Inr [] \<and>
   (\<forall>out. apply_mmr e (r # rs) lam k = Inr out \<longrightarrow>
      (\<exists>more. out = mark_first r # more) \<and> diversity_score (hd out) = Some 1 \<and>
      unscored (hd out) = unscored r \<and>
      (sorted_wrt (\<lambda>a b. score a \<ge> score b) (r # rs) \<longrightarrow>
         (\<forall>x \<in> set (r # rs). score x \<le> score (hd out)))) \<and>
   (fixed_dimension e d \<and> (\<forall>x \<in> set (r # rs). name_encodes e x) \<longrightarrow>
      (\<exists>out. apply_mmr e (r # rs) lam k = Inr out)) \<and>
   apply_mmr e [r] lam k =
     (if display_text (item_payload r) = [] then Inr [mark_first r]
      else (case encode_text e (take 100 (display_text (item_payload r))) of
              Inl err \<Rightarrow> Inl err
            | Inr v \<Rightarrow> Inr [mark_first r])) \<and>
   diversity_score (mark_first r) = Some 1 \<and>
   rerank_results e st =
     rerank_loop e
       (if alignment st = Some ''partial'' then 5 / 10
        else if alignment st = Some ''divergent'' then 3 / 10 else 7 / 10)
       (top_k st) (all_results st) [] \<and>
   (\<forall>rr coll results.
      rerank_results e st = Inr rr \<and> distinct (map fst (all_results st)) \<and>
      (coll, results) \<in> set (all_results st) \<and> results \<noteq> [] \<longrightarrow>
      (\<exists>sel. apply_mmr e (take 10 results)
                (if alignment st = Some ''partial'' then 5 / 10
                 else if alignment st = Some ''divergent'' then 3 / 10 else 7 / 10)
                (top_k st) = Inr sel \<and>
             map_of rr coll = Some (with_mmr_rank sel))) \<and>
   mmr_lambda_for (Some ''aligned'') = 7 / 10 \<and> mmr_lambda_for None = 7 / 10 \<and>
   mmr_lambda_for (Some ''partial'') = 5 / 10 \<and> mmr_lambda_for (Some ''divergent'') = 3 / 10"
proof (intro conjI allI impI)
  show "apply_mmr e [] lam k = Inr []" by (simp add: apply_mmr_def)
next
  fix out assume run: "apply_mmr e (r # rs) lam k = Inr out"
  from apply_mmr_head[OF run] obtain more where out: "out = mark_first r # more" ..
  then show "\<exists>more. out = mark_first r # more" ..
  from out show "diversity_score (hd out) = Some 1" by (simp add: mark_first_def)
  from out show "unscored (hd out) = unscored r" by simp
  assume "sorted_wrt (\<lambda>a b. score a \<ge> score b) (r # rs)"
  then have "\<forall>x \<in> set (r # rs). score x \<le> score r" by auto
  with out show "\<forall>x \<in> set (r # rs). score x \<le> score (hd out)"
    by (simp add: mark_first_def)
next
  assume "fixed_dimension e d \<and> (\<forall>x \<in> set (r # rs). name_encodes e x)"
  then show "\<exists>out. apply_mmr e (r # rs) lam k = Inr out"
    using apply_mmr_ok[of e d "r # rs" lam k] by blast
next
  show "apply_mmr e [r] lam k =
     (if display_text (item_payload r) = [] then Inr [mark_first r]
      else (case encode_text e (take 100 (display_text (item_payload r))) of
              Inl err \<Rightarrow> Inl err
            | Inr v \<Rightarrow> Inr [mark_first r]))"
    by (rule apply_mmr_one)
next
  show "diversity_score (mark_first r) = Some 1" by (simp add: mark_first_def)
next
  show "rerank_results e st =
     rerank_loop e
       (if alignment st = Some ''partial'' then 5 / 10
        else if alignment st = Some ''divergent'' then 3 / 10 else 7 / 10)
       (top_k st) (all_results st) []"
    unfolding rerank_results_def mmr_lambda_for_cases ..
next
  fix rr coll results
  assume h: "rerank_results e st = Inr rr \<and> distinct (map fst (all_results st)) \<and>
      (coll, results) \<in> set (all_results st) \<and> results \<noteq> []"
  then have "\<exists>sel. apply_mmr e (take 10 results) (mmr_lambda_for (alignment st)) (top_k st) = Inr sel \<and>
           map_of rr coll = Some (with_mmr_rank sel)"
    by (intro rerank_results_lookup) simp_all
  then show "\<exists>sel. apply_mmr e (take 10 results)
                (if alignment st = Some ''partial'' then 5 / 10
                 else if alignment st = Some ''divergent'' then 3 / 10 else 7 / 10)
                (top_k st) = Inr sel \<and>
             map_of rr coll = Some (with_mmr_rank sel)"
    unfolding mmr_lambda_for_cases .
qed (simp_all add: mmr_lambda_values)

text \<open>
  The rule at the two example proteins, and at a state of Stage 2 without alignment
  label whose results are these two proteins.
\<close>

theorem apply_mmr_first_item_witness:
  "(\<exists>more. apply_mmr fixture_env [fixture_protein_a, fixture_protein_b] (7 / 10) 5 =
       Inr (mark_first fixture_protein_a # more)) \<and>
   score fixture_protein_b \<le> score fixture_protein_a \<and>
   diversity_score (mark_first fixture_protein_a) = Some 1 \<and>
   apply_mmr fixture_env [fixture_protein_a] (7 / 10) 5 = Inr [mark_first fixture_protein_a] \<and>
   (\<exists>rr sel. rerank_results fixture_env fixture_ranked_state = Inr rr \<and>
      apply_mmr fixture_env [fixture_protein_a, fixture_protein_b] (7 / 10) 5 = Inr sel \<and>
      map_of rr ''proteins'' = Some (with_mmr_rank sel))"
proof -
  note inst = apply_mmr_first_item[where e=fixture_env and r=fixture_protein_a
      and rs="[fixture_protein_b]" and lam="7 / 10" and k=5 and d=11
      and st=fixture_ranked_state]
  note first = inst[THEN conjunct2, THEN conjunct1]
  note returns = inst[THEN conjunct2, THEN conjunct2, THEN conjunct1]
  note single = inst[THEN conjunct2, THEN conjunct2, THEN conjunct2, THEN conjunct1]
  note ranked = inst[THEN conjunct2, THEN conjunct2, THEN conjunct2, THEN conjunct2,
      THEN conjunct2, THEN conjunct2, THEN conjunct1]
  from returns fixture_env_dimension fixture_names_encode
  obtain out where out: "apply_mmr fixture_env [fixture_protein_a, fixture_protein_b] (7 / 10) 5 = Inr out"
    by auto
  with first have hd: "\<exists>more. out = mark_first fixture_protein_a # more" by blast
  have t: "display_text (item_payload fixture_protein_a) \<noteq> []"
    by (simp add: fixture_protein_a_def hit_def display_text_def empty_payload_def py_or_def
        truthy_def)
  have one: "apply_mmr fixture_env [fixture_protein_a] (7 / 10) 5 = Inr [mark_first fixture_protein_a]"
    using single t by (simp add: fixture_env_def fixture_encode_def)
  have sc: "score fixture_protein_b \<le> score fixture_protein_a"
    by (simp add: fixture_protein_a_def fixture_protein_b_def hit_def)
  have rr: "rerank_results fixture_env fixture_ranked_state =
      Inr [(''proteins'', with_mmr_rank out)]"
    using out
    by (simp add: rerank_results_def fixture_ranked_state rerank_collection_def
        mmr_lambda_for_cases od_assign_def od_keys_def)
  from ranked[rule_format, of "[(''proteins'', with_mmr_rank out)]" "''proteins''"
      "[fixture_protein_a, fixture_protein_b]"] rr
  have "\<exists>sel. apply_mmr fixture_env [fixture_protein_a, fixture_protein_b] (7 / 10) 5 = Inr sel \<and>
      map_of [(''proteins'', with_mmr_rank out)] ''proteins'' = Some (with_mmr_rank sel)"
    by (simp add: fixture_ranked_state)
  with rr have r: "\<exists>rr sel. rerank_results fixture_env fixture_ranked_state = Inr rr \<and>
      apply_mmr fixture_env [fixture_protein_a, fixture_protein_b] (7 / 10) 5 = Inr sel \<and>
      map_of rr ''proteins'' = Some (with_mmr_rank sel)" by blast
  from hd out have "\<exists>more. apply_mmr fixture_env [fixture_protein_a, fixture_protein_b] (7 / 10) 5 =
       Inr (mark_first fixture_protein_a # more)" by auto
  moreover have "diversity_score (mark_first fixture_protein_a) = Some 1"
    by (simp add: mark_first_def)
  ultimately show ?thesis using sc one r by blast
qed

text \<open>
  The first candidate is selected first whatever its score: of a candidate with score 0.2
  followed by one with score 0.9, the first selected is the one with score 0.2.
\<close>

theorem apply_mmr_first_item_counterexample:
  "apply_mmr fixture_env
     [hit ''low'' (2 / 10) empty_payload, hit ''high'' (9 / 10) empty_payload] (7 / 10) 2 =
   Inr [mark_first (hit ''low'' (2 / 10) empty_payload),
        mark_chosen (hit ''high'' (9 / 10) empty_payload) (63 / 100) 1] \<and>
   score (mark_first (hit ''low'' (2 / 10) empty_payload)) <
   score (hit ''high'' (9 / 10) empty_payload)"
proof -
  have t: "display_text empty_payload = []"
    by (simp add: display_text_def empty_payload_def py_or_def truthy_def)
  have sc: "scan_candidates Map.empty (7 / 10) [mark_first (hit ''low'' (2 / 10) empty_payload)] 0
      [hit ''high'' (9 / 10) empty_payload] None = Inr (Some (0, 63 / 100, 1))"
    by (simp add: candidate_max_sim_def hit_def Let_def)
  have "mmr_loop Map.empty (7 / 10) 2 [mark_first (hit ''low'' (2 / 10) empty_payload)]
      [hit ''high'' (9 / 10) empty_payload] =
    Inr [mark_first (hit ''low'' (2 / 10) empty_payload),
        mark_chosen (hit ''high'' (9 / 10) empty_payload) (63 / 100) 1]"
    by (subst mmr_loop_step[OF _ _ sc]) (simp_all add: mmr_loop_stop pop_at_def)
  then show ?thesis
    by (simp add: apply_mmr_def hit_def t mark_first_def)
qed

text \<open>
  Claim C7.  When a selection has returned the list \<open>L\<close> and the encoder gives vectors
  of one size, selecting again from \<open>L\<close> with target count \<open>len(L)\<close> returns, and
  returns the same items: the two lists agree as multisets once the three scores that
  the selection writes are set aside.  When the results that \<open>L\<close> was selected from have
  distinct ids, the second selection returns \<open>L\<close> itself, in the same order and with the
  same scores: in every round the item that the first selection took next is the first
  candidate of maximal value, and the first-seen rule keeps it.
\<close>

theorem apply_mmr_idempotent:
  assumes "apply_mmr e rs lam k = Inr L" and "fixed_dimension e d"
  shows "\<exists>L'. apply_mmr e L lam (int (length L)) = Inr L' \<and>
              mset (map unscored L') = mset (map unscored L) \<and>
              (distinct (map item_id rs) \<longrightarrow> L' = L)"
proof -
  from apply_mmr_again[OF assms] obtain L' where
    L': "apply_mmr e L lam (int (length L)) = Inr L'"
    "mset (map unscored L') = mset (map unscored L)" by blast
  have "distinct (map item_id rs) \<longrightarrow> L' = L"
  proof
    assume "distinct (map item_id rs)"
    from apply_mmr_rerun[OF assms(1) this] L'(1) show "L' = L" by simp
  qed
  with L' show ?thesis by blast
qed

text \<open>The two example proteins: the second selection returns the list of the first.\<close>

theorem apply_mmr_idempotent_witness:
  "\<exists>L. apply_mmr fixture_env [fixture_protein_a, fixture_protein_b] (7 / 10) 5 = Inr L \<and>
      set (map item_id L) = {''prot-a'', ''prot-b''} \<and>
      apply_mmr fixture_env L (7 / 10) (int (length L)) = Inr L"
proof -
  from apply_mmr_ok[OF fixture_env_dimension, of "[fixture_protein_a, fixture_protein_b]" "7 / 10" 5]
    fixture_names_encode
  obtain L where L: "apply_mmr fixture_env [fixture_protein_a, fixture_protein_b] (7 / 10) 5 = Inr L"
    by auto
  from apply_mmr_mset[OF L] have "mset (map unscored L) = mset (map unscored [fixture_protein_a, fixture_protein_b])"
    by simp
  then have "set_mset (image_mset item_id (mset (map unscored L))) =
      set_mset (image_mset item_id (mset (map unscored [fixture_protein_a, fixture_protein_b])))"
    by simp
  then have ids: "set (map item_id L) = {''prot-a'', ''prot-b''}"
    by (simp add: unscored_def fixture_protein_a_def fixture_protein_b_def hit_def image_image)
  have d: "distinct (map item_id [fixture_protein_a, fixture_protein_b])"
    by (simp add: fixture_protein_a_def fixture_protein_b_def hit_def)
  from apply_mmr_idempotent[OF L fixture_env_dimension] d
  have "apply_mmr fixture_env L (7 / 10) (int (length L)) = Inr L" by auto
  with ids L show ?thesis by blast
qed

section \<open>Properties of Stage 1\<close>

lemma recent_lookup:
  assumes d: "distinct (od_keys (cache c))" and r: "recent c key v n"
  shows "key \<in> set (od_keys (cache c))" "map_of (cache c) key = Some v"
proof -
  from r obtain older newer where c: "cache c = older @ (key, v) # newer" by (auto simp: recent_def)
  then show "key \<in> set (od_keys (cache c))" by (simp add: od_keys_def)
  from d c have "key \<notin> fst ` set older" by (auto simp: od_keys_def)
  then have "map_of older key = None" by (simp add: map_of_eq_None_iff)
  with c show "map_of (cache c) key = Some v"
    by (simp add: map_add_def)
qed

lemma recent_pop:
  assumes d: "distinct (od_keys (cache c))" and r: "recent c key v n" and ne: "k \<noteq> key"
  shows "recent (LRUCache_remove c k) key v n"
proof -
  from r obtain older newer where c: "cache c = older @ (key, v) # newer" and l: "length newer \<le> n"
    by (auto simp: recent_def)
  have "cache (LRUCache_remove c k) =
      filter (\<lambda>e. fst e \<noteq> k) older @ (key, v) # filter (\<lambda>e. fst e \<noteq> k) newer"
    using ne by (simp add: LRUCache_remove_def od_pop_def c)
  moreover have "length (filter (\<lambda>e. fst e \<noteq> k) newer) \<le> n"
    using l by (meson le_trans length_filter_le)
  ultimately show ?thesis unfolding recent_def by blast
qed

lemma wf_remove: "emb_wf c \<Longrightarrow> emb_wf (LRUCache_remove c k)"
  by (auto simp: emb_wf_def LRUCache_remove_def od_pop_def od_keys_def distinct_map_filter)

lemma evict_wf: "emb_wf c \<Longrightarrow> evict c = (err, c') \<Longrightarrow> err = None \<and> emb_wf c'"
proof (induction c arbitrary: err c' rule: evict.induct)
  case (1 c)
  show ?case
  proof (cases "int (length (cache c)) \<ge> max_size c")
    case False
    with "1.prems" show ?thesis by (simp add: evict.simps)
  next
    case True
    with "1.prems"(1) obtain e es where ce: "cache c = e # es"
      by (cases "cache c") (auto simp: emb_wf_def)
    with True "1.prems"(2) have ev: "evict (LRUCache_remove c (fst e)) = (err, c')"
      by (simp add: evict.simps)
    from "1.IH"[OF True ce wf_remove[OF "1.prems"(1)] ev] show ?thesis .
  qed
qed

lemma evict_recent:
  "emb_wf c \<Longrightarrow> recent c key v n \<Longrightarrow> n \<le> 6 \<Longrightarrow> evict c = (err, c') \<Longrightarrow> recent c' key v n"
proof (induction c arbitrary: err c' rule: evict.induct)
  case (1 c)
  show ?case
  proof (cases "int (length (cache c)) \<ge> max_size c")
    case False
    with "1.prems" show ?thesis by (simp add: evict.simps)
  next
    case True
    from "1.prems"(2) obtain older newer where
      c: "cache c = older @ (key, v) # newer" and l: "length newer \<le> n"
      by (auto simp: recent_def)
    from "1.prems"(1) have "8 \<le> max_size c" by (simp add: emb_wf_def)
    with True c l "1.prems"(3) have "older \<noteq> []" by auto
    then obtain e es where o: "older = e # es" by (cases older) auto
    from "1.prems"(1) c o have ne: "fst e \<noteq> key" by (auto simp: emb_wf_def od_keys_def)
    from c o have ce: "cache c = e # (es @ (key, v) # newer)" by simp
    with True "1.prems"(4) have ev: "evict (LRUCache_remove c (fst e)) = (err, c')"
      by (simp add: evict.simps)
    have d: "distinct (od_keys (cache c))" using "1.prems"(1) by (simp add: emb_wf_def)
    from "1.IH"[OF True ce wf_remove[OF "1.prems"(1)] recent_pop[OF d "1.prems"(2) ne] "1.prems"(3) ev]
    show ?thesis .
  qed
qed


lemma recent_mono:
  assumes "recent c key v n" and "n \<le> m"
  shows "recent c key v m"
proof -
  from assms(1) obtain older newer where "cache c = older @ (key, v) # newer" "length newer \<le> n"
    by (auto simp: recent_def)
  with assms(2) have "cache c = older @ (key, v) # newer \<and> length newer \<le> m" by simp
  then show ?thesis unfolding recent_def by blast
qed

lemma filter_key_le_one:
  "distinct (map fst xs) \<Longrightarrow> length (filter (\<lambda>e. fst e = k) xs) \<le> 1"
proof (induction xs)
  case Nil
  then show ?case by simp
next
  case (Cons x xs)
  show ?case
  proof (cases "fst x = k")
    case True
    with Cons.prems have "k \<notin> fst ` set xs" by simp
    then have "filter (\<lambda>e. fst e = k) xs = []" by (auto simp: filter_empty_conv)
    with True show ?thesis by simp
  next
    case False
    with Cons show ?thesis by simp
  qed
qed

lemma wf_get: "emb_wf c \<Longrightarrow> emb_wf (snd (LRUCache_get c now k))"
  by (auto simp: LRUCache_get_def Let_def wf_remove)
     (auto simp: emb_wf_def od_move_to_end_def od_keys_def distinct_map_filter)

lemma get_recent_other:
  assumes wf: "emb_wf c" and r: "recent c key v n" and ne: "k \<noteq> key"
  shows "recent (snd (LRUCache_get c now k)) key v (Suc n)"
proof -
  have d: "distinct (od_keys (cache c))" using wf by (simp add: emb_wf_def)
  from r have r': "recent c key v (Suc n)" by (rule recent_mono) simp
  from r obtain older newer where c: "cache c = older @ (key, v) # newer" and l: "length newer \<le> n"
    by (auto simp: recent_def)
  have one: "length (filter (\<lambda>e. fst e = k) (cache c)) \<le> 1"
    using d filter_key_le_one[of "cache c" k] by (simp add: od_keys_def)
  have mv: "od_move_to_end (cache c) k =
      filter (\<lambda>e. fst e \<noteq> k) older @ (key, v) #
        (filter (\<lambda>e. fst e \<noteq> k) newer @ filter (\<lambda>e. fst e = k) (cache c))"
    using ne by (simp add: od_move_to_end_def c)
  have "length (filter (\<lambda>e. fst e \<noteq> k) newer @ filter (\<lambda>e. fst e = k) (cache c)) \<le> Suc n"
  proof -
    have a: "length (filter (\<lambda>e. fst e \<noteq> k) newer) \<le> length newer" by (rule length_filter_le)
    have "length (filter (\<lambda>e. fst e \<noteq> k) newer @ filter (\<lambda>e. fst e = k) (cache c)) =
        length (filter (\<lambda>e. fst e \<noteq> k) newer) + length (filter (\<lambda>e. fst e = k) (cache c))"
      by simp
    with one l a show ?thesis by linarith
  qed
  with mv have "cache (c\<lparr>cache := od_move_to_end (cache c) k\<rparr>) =
      filter (\<lambda>e. fst e \<noteq> k) older @ (key, v) #
        (filter (\<lambda>e. fst e \<noteq> k) newer @ filter (\<lambda>e. fst e = k) (cache c)) \<and>
      length (filter (\<lambda>e. fst e \<noteq> k) newer @ filter (\<lambda>e. fst e = k) (cache c)) \<le> Suc n"
    by simp
  then have moved: "recent (c\<lparr>cache := od_move_to_end (cache c) k\<rparr>) key v (Suc n)"
    unfolding recent_def by blast
  show ?thesis
    using r' moved recent_pop[OF d r' ne] by (simp add: LRUCache_get_def Let_def)
qed


lemma get_recent_hit:
  assumes wf: "emb_wf c" and r: "recent c key v n"
  shows "fst (LRUCache_get c now key) = Some v" "recent (snd (LRUCache_get c now key)) key v 0"
proof -
  have d: "distinct (od_keys (cache c))" using wf by (simp add: emb_wf_def)
  note lk = recent_lookup[OF d r]
  have nottl: "(case ttls c key of None \<Rightarrow> None | Some t \<Rightarrow> t) = None"
  proof (cases "ttls c key")
    case None
    then show ?thesis by simp
  next
    case (Some a)
    with wf have "a = None" by (cases a) (auto simp: emb_wf_def)
    with Some show ?thesis by simp
  qed
  have g: "LRUCache_get c now key = (Some v, c\<lparr>cache := od_move_to_end (cache c) key\<rparr>)"
    using lk nottl by (simp add: LRUCache_get_def Let_def)
  then show "fst (LRUCache_get c now key) = Some v" by simp
  from r obtain older newer where c: "cache c = older @ (key, v) # newer"
    by (auto simp: recent_def)
  from d c have "key \<notin> fst ` set older" "key \<notin> fst ` set newer"
    by (auto simp: od_keys_def)
  then have "filter (\<lambda>e. fst e = key) older = []" "filter (\<lambda>e. fst e = key) newer = []"
    by (auto simp: filter_empty_conv)
  then have "od_move_to_end (cache c) key =
      (filter (\<lambda>e. fst e \<noteq> key) older @ filter (\<lambda>e. fst e \<noteq> key) newer) @ (key, v) # []"
    by (simp add: od_move_to_end_def c)
  then have "cache (snd (LRUCache_get c now key)) =
      (filter (\<lambda>e. fst e \<noteq> key) older @ filter (\<lambda>e. fst e \<noteq> key) newer) @ (key, v) # [] \<and>
      length ([] :: (string \<times> 'a) list) \<le> 0"
    by (simp add: g)
  then show "recent (snd (LRUCache_get c now key)) key v 0"
    unfolding recent_def by blast
qed

lemma set_wf:
  assumes wf: "emb_wf c"
  shows "fst (LRUCache_set c now k v None) = None" "emb_wf (snd (LRUCache_set c now k v None))"
    "recent (snd (LRUCache_set c now k v None)) k v 0"
proof -
  have m: "0 < max_size c" using wf by (simp add: emb_wf_def)
  from set_result[OF m, of now k v None] obtain c2 where
    s: "LRUCache_set c now k v None =
           (None, c2\<lparr>cache := cache c2 @ [(k, v)],
                     timestamps := (timestamps c2)(k \<mapsto> now),
                     ttls := (ttls c2)(k \<mapsto> effective_ttl c None)\<rparr>)"
    and k2: "k \<notin> set (od_keys (cache c2))"
    and ev: "evict (if k \<in> set (od_keys (cache c)) then LRUCache_remove c k else c) = (None, c2)"
    by blast
  have "emb_wf (if k \<in> set (od_keys (cache c)) then LRUCache_remove c k else c)"
    using wf by (simp add: wf_remove)
  from evict_wf[OF this ev] have w2: "emb_wf c2" by simp
  have e: "effective_ttl c None = None" using wf by (simp add: effective_ttl_def emb_wf_def)
  show "fst (LRUCache_set c now k v None) = None" by (simp add: s)
  show "emb_wf (snd (LRUCache_set c now k v None))"
    using w2 k2 by (auto simp: s e emb_wf_def od_keys_def)
  have "cache (snd (LRUCache_set c now k v None)) = cache c2 @ (k, v) # [] \<and>
      length ([] :: (string \<times> 'a) list) \<le> 0"
    by (simp add: s)
  then show "recent (snd (LRUCache_set c now k v None)) k v 0"
    unfolding recent_def by blast
qed

lemma set_recent_other:
  assumes wf: "emb_wf c" and r: "recent c key v n" and n: "n \<le> 6" and ne: "k \<noteq> key"
  shows "recent (snd (LRUCache_set c now k v' None)) key v (Suc n)"
proof -
  have m: "0 < max_size c" using wf by (simp add: emb_wf_def)
  have d: "distinct (od_keys (cache c))" using wf by (simp add: emb_wf_def)
  from set_result[OF m, of now k v' None] obtain c2 where
    s: "LRUCache_set c now k v' None =
           (None, c2\<lparr>cache := cache c2 @ [(k, v')],
                     timestamps := (timestamps c2)(k \<mapsto> now),
                     ttls := (ttls c2)(k \<mapsto> effective_ttl c None)\<rparr>)"
    and ev: "evict (if k \<in> set (od_keys (cache c)) then LRUCache_remove c k else c) = (None, c2)"
    by blast
  let ?c1 = "if k \<in> set (od_keys (cache c)) then LRUCache_remove c k else c"
  have w1: "emb_wf ?c1" using wf by (simp add: wf_remove)
  have r1: "recent ?c1 key v n" using r recent_pop[OF d r ne] by simp
  from evict_recent[OF w1 r1 n ev] obtain older newer where
    c2: "cache c2 = older @ (key, v) # newer" and l: "length newer \<le> n"
    by (auto simp: recent_def)
  then have "cache (snd (LRUCache_set c now k v' None)) = older @ (key, v) # (newer @ [(k, v')]) \<and>
      length (newer @ [(k, v')]) \<le> Suc n"
    by (simp add: s)
  then show ?thesis unfolding recent_def by blast
qed


lemma get_embedding_eq:
  "fst (get_embedding mc now h) = fst (LRUCache_get (embeddings mc) now (''emb:'' @ h))"
  "embeddings (snd (get_embedding mc now h)) = snd (LRUCache_get (embeddings mc) now (''emb:'' @ h))"
  by (simp_all add: get_embedding_def MultiLevelCache_get_def get_cache_level_def
      put_cache_level_def Let_def split: prod.splits)

lemma set_embedding_eq:
  "fst (set_embedding mc now h v) = fst (LRUCache_set (embeddings mc) now (''emb:'' @ h) v None)"
  "embeddings (snd (set_embedding mc now h v)) =
     snd (LRUCache_set (embeddings mc) now (''emb:'' @ h) v None)"
  by (simp_all add: set_embedding_def MultiLevelCache_set_def get_cache_level_def
      put_cache_level_def Let_def split: prod.splits)

text \<open>A block that works under another key keeps the entry among the recent ones.\<close>

lemma get_set_other:
  assumes wf: "emb_wf (embeddings mc)" and r: "recent (embeddings mc) key v n" and n: "n \<le> 4"
    and ne: "''emb:'' @ h \<noteq> key"
  shows "emb_wf (embeddings (snd (get_embedding mc now h)))"
    "recent (embeddings (snd (get_embedding mc now h))) key v (n + 2)"
    "emb_wf (embeddings (snd (set_embedding (snd (get_embedding mc now h)) now h x)))"
    "recent (embeddings (snd (set_embedding (snd (get_embedding mc now h)) now h x))) key v (n + 2)"
proof -
  let ?c1 = "snd (LRUCache_get (embeddings mc) now (''emb:'' @ h))"
  have w1: "emb_wf ?c1" using wf by (rule wf_get)
  have r1: "recent ?c1 key v (Suc n)" using wf r ne by (rule get_recent_other)
  show "emb_wf (embeddings (snd (get_embedding mc now h)))" using w1 by (simp add: get_embedding_eq)
  show "recent (embeddings (snd (get_embedding mc now h))) key v (n + 2)"
    using recent_mono[OF r1, of "n + 2"] by (simp add: get_embedding_eq)
  show "emb_wf (embeddings (snd (set_embedding (snd (get_embedding mc now h)) now h x)))"
    using set_wf(2)[OF w1] by (simp add: get_embedding_eq set_embedding_eq)
  have "recent (snd (LRUCache_set ?c1 now (''emb:'' @ h) x None)) key v (Suc (Suc n))"
    using w1 r1 _ ne by (rule set_recent_other) (use n in simp)
  then show "recent (embeddings (snd (set_embedding (snd (get_embedding mc now h)) now h x))) key v (n + 2)"
    by (simp add: get_embedding_eq set_embedding_eq)
qed

lemma file_block_other:
  assumes wf: "emb_wf (embeddings mc)" and r: "recent (embeddings mc) key v n" and n: "n \<le> 4"
    and ne: "''emb:'' @ prefix @ hash16 e path \<noteq> key" and nm: "name \<noteq> ''sequence''"
  shows "emb_wf (embeddings (snd (encode_file_block prefix name enc e now mc st path)))"
    "recent (embeddings (snd (encode_file_block prefix name enc e now mc st path))) key v (n + 2)"
    "vectors (fst (encode_file_block prefix name enc e now mc st path)) ''sequence'' = vectors st ''sequence''"
    "cache_hits (fst (encode_file_block prefix name enc e now mc st path)) ''sequence'' =
       cache_hits st ''sequence''"
    "request.truncate (fst (encode_file_block prefix name enc e now mc st path)) = request.truncate st"
  using get_set_other[OF wf r n ne, of now] nm
  by (auto simp: encode_file_block_def Let_def split_beta request.truncate_def
      split: option.splits sum.splits)


lemma text_block_other:
  assumes wf: "emb_wf (embeddings mc)" and r: "recent (embeddings mc) key v n" and n: "n \<le> 4"
    and ne: "''emb:'' @ ''text:'' @ hash16 e text \<noteq> key"
  shows "emb_wf (embeddings (snd (encode_text_block e now mc st text)))"
    "recent (embeddings (snd (encode_text_block e now mc st text))) key v (n + 2)"
  using get_set_other[OF wf r n ne, of now]
  by (auto simp: encode_text_block_def Let_def split_beta split: option.splits sum.splits)

lemma text_block_state:
  assumes "fst (encode_text_block e now mc st text) = Inr st'"
  shows "vectors st' ''sequence'' = vectors st ''sequence''"
    "cache_hits st' ''sequence'' = cache_hits st ''sequence''"
    "request.truncate st' = request.truncate st"
  using assms
  by (auto simp: encode_text_block_def Let_def split_beta request.truncate_def
      split: option.splits sum.splits)

lemma text_block_wf:
  assumes wf: "emb_wf (embeddings mc)"
  shows "emb_wf (embeddings (snd (encode_text_block e now mc st text)))"
  using wf_get[OF wf, of now "''emb:'' @ ''text:'' @ hash16 e text"]
    set_wf(2)[OF wf_get[OF wf, of now "''emb:'' @ ''text:'' @ hash16 e text"], of now "''emb:'' @ ''text:'' @ hash16 e text"]
  by (auto simp: encode_text_block_def Let_def split_beta get_embedding_eq set_embedding_eq
      split: option.splits sum.splits)

lemma sequence_block_stores:
  assumes wf: "emb_wf (embeddings mc)"
    and run: "encode_sequence_block e now mc st seq = (Inr st', mc')"
  shows "\<exists>entry. recent (embeddings mc') (''emb:'' @ ''seq:'' @ hash16 e (take 100 seq)) entry 0 \<and>
           vectors st' ''sequence'' = Some (emb_vector entry)"
    and "emb_wf (embeddings mc')"
proof -
  let ?h = "''seq:'' @ hash16 e (take 100 seq)"
  let ?k = "''emb:'' @ ?h"
  let ?c = "embeddings mc"
  let ?m1 = "snd (get_embedding mc now ?h)"
  have w1: "emb_wf (embeddings ?m1)" using wf_get[OF wf] by (simp add: get_embedding_eq)
  show "\<exists>entry. recent (embeddings mc') ?k entry 0 \<and> vectors st' ''sequence'' = Some (emb_vector entry)"
  proof (cases "fst (get_embedding mc now ?h)")
    case (Some entry)
    then have g: "fst (LRUCache_get ?c now ?k) = Some entry" by (simp add: get_embedding_eq)
    then have "?k \<in> set (od_keys (cache ?c))" "map_of (cache ?c) ?k = Some entry"
      by (auto simp: LRUCache_get_def Let_def split: if_splits)
    then have "(?k, entry) \<in> set (cache ?c)" by (simp add: map_of_SomeD)
    then obtain older newer where "cache ?c = older @ (?k, entry) # newer"
      by (meson split_list)
    then have "cache ?c = older @ (?k, entry) # newer \<and> length newer \<le> length newer" by simp
    then have "recent ?c ?k entry (length newer)" unfolding recent_def by blast
    from get_recent_hit(2)[OF wf this, of now]
    have "recent (embeddings ?m1) ?k entry 0" by (simp add: get_embedding_eq)
    moreover from run Some have "mc' = ?m1" "vectors st' ''sequence'' = Some (emb_vector entry)"
      by (auto simp: encode_sequence_block_def Let_def split_beta)
    ultimately show ?thesis by blast
  next
    case None
    with run obtain vec where v: "encode_sequence e seq = Inr vec"
      by (cases "encode_sequence e seq") (auto simp: encode_sequence_block_def Let_def split_beta)
    let ?entry = "\<lparr>emb_vector = vec, emb_sparse = None, emb_concepts = None\<rparr>"
    from run None v have "mc' = snd (set_embedding ?m1 now ?h ?entry)"
      "vectors st' ''sequence'' = Some vec"
      by (auto simp: encode_sequence_block_def Let_def split_beta split: option.splits)
    moreover have "recent (embeddings (snd (set_embedding ?m1 now ?h ?entry))) ?k ?entry 0"
      using set_wf(3)[OF w1[unfolded get_embedding_eq], of now ?k ?entry]
      by (simp add: set_embedding_eq get_embedding_eq)
    ultimately have "recent (embeddings mc') ?k ?entry 0 \<and>
        vectors st' ''sequence'' = Some (emb_vector ?entry)" by simp
    then show ?thesis by blast
  qed
  show "emb_wf (embeddings mc')"
    using run w1 set_wf(2)[OF w1[unfolded get_embedding_eq], of now ?k]
    by (auto simp: encode_sequence_block_def Let_def split_beta get_embedding_eq set_embedding_eq
        split: option.splits sum.splits)
qed

lemma sequence_block_hit:
  assumes wf: "emb_wf (embeddings mc)"
    and r: "recent (embeddings mc) (''emb:'' @ ''seq:'' @ hash16 e (take 100 seq)) entry n"
  shows "\<exists>mc'. encode_sequence_block e now mc st seq =
           (Inr (st\<lparr>vectors := (vectors st)(''sequence'' \<mapsto> emb_vector entry),
                    cache_hits := (cache_hits st)(''sequence'' \<mapsto> True)\<rparr>), mc')"
  using get_recent_hit(1)[OF wf r, of now]
  by (simp add: encode_sequence_block_def Let_def split_beta get_embedding_eq)


lemma truncate_fields [simp]:
  "request.input_text (request.truncate st) = input_text st"
  "request.input_sequence (request.truncate st) = input_sequence st"
  "request.input_image_path (request.truncate st) = input_image_path st"
  "request.input_structure_path (request.truncate st) = input_structure_path st"
  by (simp_all add: request.truncate_def)

lemma truncate_eq_fields:
  "request.truncate st' = request.truncate st \<Longrightarrow>
     input_text st' = input_text st \<and> input_sequence st' = input_sequence st \<and>
     input_image_path st' = input_image_path st \<and> input_structure_path st' = input_structure_path st"
  by (metis truncate_fields)

lemma text_stage_keeps:
  assumes wf: "emb_wf (embeddings mc)"
  shows "emb_wf (embeddings (snd (text_stage e now mc st)))"
    and "fst (text_stage e now mc st) = Inr st' \<Longrightarrow>
         vectors st' ''sequence'' = vectors st ''sequence'' \<and>
         cache_hits st' ''sequence'' = cache_hits st ''sequence'' \<and>
         request.truncate st' = request.truncate st"
    and "recent (embeddings mc) (''emb:'' @ ''seq:'' @ h) v n \<Longrightarrow> n \<le> 4 \<Longrightarrow>
         recent (embeddings (snd (text_stage e now mc st))) (''emb:'' @ ''seq:'' @ h) v (n + 2)"
proof -
  show "emb_wf (embeddings (snd (text_stage e now mc st)))"
    using wf text_block_wf[OF wf] by (simp add: text_stage_def)
  show "fst (text_stage e now mc st) = Inr st' \<Longrightarrow>
         vectors st' ''sequence'' = vectors st ''sequence'' \<and>
         cache_hits st' ''sequence'' = cache_hits st ''sequence'' \<and>
         request.truncate st' = request.truncate st"
    using text_block_state[of e now mc st "py_str (input_text st)" st']
    by (auto simp: text_stage_def split: if_splits)
  assume r: "recent (embeddings mc) (''emb:'' @ ''seq:'' @ h) v n" and n: "n \<le> 4"
  have ne: "''emb:'' @ ''text:'' @ hash16 e (py_str (input_text st)) \<noteq> ''emb:'' @ ''seq:'' @ h"
    by simp
  show "recent (embeddings (snd (text_stage e now mc st))) (''emb:'' @ ''seq:'' @ h) v (n + 2)"
    using text_block_other(2)[OF wf r n ne] recent_mono[OF r, of "n + 2"]
    by (simp add: text_stage_def)
qed

lemma image_stage_keeps:
  assumes wf: "emb_wf (embeddings mc)"
    and r: "recent (embeddings mc) (''emb:'' @ ''seq:'' @ h) v n" and n: "n \<le> 4"
  shows "emb_wf (embeddings (snd (image_stage e now mc st)))"
    "recent (embeddings (snd (image_stage e now mc st))) (''emb:'' @ ''seq:'' @ h) v (n + 2)"
    "vectors (fst (image_stage e now mc st)) ''sequence'' = vectors st ''sequence''"
    "cache_hits (fst (image_stage e now mc st)) ''sequence'' = cache_hits st ''sequence''"
    "request.truncate (fst (image_stage e now mc st)) = request.truncate st"
proof -
  have ne: "''emb:'' @ ''img:'' @ hash16 e (py_str (input_image_path st)) \<noteq> ''emb:'' @ ''seq:'' @ h"
    by simp
  have nm: "''image'' \<noteq> ''sequence''" by simp
  note b = file_block_other[OF wf r n ne nm, of "encode_image e" now st]
  show "emb_wf (embeddings (snd (image_stage e now mc st)))"
    using b(1) wf by (simp add: image_stage_def encode_image_block_def)
  show "recent (embeddings (snd (image_stage e now mc st))) (''emb:'' @ ''seq:'' @ h) v (n + 2)"
    using b(2) recent_mono[OF r, of "n + 2"] by (simp add: image_stage_def encode_image_block_def)
  show "vectors (fst (image_stage e now mc st)) ''sequence'' = vectors st ''sequence''"
    using b(3) by (simp add: image_stage_def encode_image_block_def)
  show "cache_hits (fst (image_stage e now mc st)) ''sequence'' = cache_hits st ''sequence''"
    using b(4) by (simp add: image_stage_def encode_image_block_def)
  show "request.truncate (fst (image_stage e now mc st)) = request.truncate st"
    using b(5) by (simp add: image_stage_def encode_image_block_def)
qed

lemma structure_stage_keeps:
  assumes wf: "emb_wf (embeddings mc)"
    and r: "recent (embeddings mc) (''emb:'' @ ''seq:'' @ h) v n" and n: "n \<le> 4"
  shows "emb_wf (embeddings (snd (structure_stage e now mc st)))"
    "recent (embeddings (snd (structure_stage e now mc st))) (''emb:'' @ ''seq:'' @ h) v (n + 2)"
    "vectors (fst (structure_stage e now mc st)) ''sequence'' = vectors st ''sequence''"
    "cache_hits (fst (structure_stage e now mc st)) ''sequence'' = cache_hits st ''sequence''"
    "request.truncate (fst (structure_stage e now mc st)) = request.truncate st"
proof -
  have ne: "''emb:'' @ ''struct:'' @ hash16 e (py_str (input_structure_path st)) \<noteq> ''emb:'' @ ''seq:'' @ h"
    by simp
  have nm: "''structure'' \<noteq> ''sequence''" by simp
  note b = file_block_other[OF wf r n ne nm, of "encode_structure e" now st]
  show "emb_wf (embeddings (snd (structure_stage e now mc st)))"
    using b(1) wf by (simp add: structure_stage_def encode_structure_block_def)
  show "recent (embeddings (snd (structure_stage e now mc st))) (''emb:'' @ ''seq:'' @ h) v (n + 2)"
    using b(2) recent_mono[OF r, of "n + 2"]
    by (simp add: structure_stage_def encode_structure_block_def)
  show "vectors (fst (structure_stage e now mc st)) ''sequence'' = vectors st ''sequence''"
    using b(3) by (simp add: structure_stage_def encode_structure_block_def)
  show "cache_hits (fst (structure_stage e now mc st)) ''sequence'' = cache_hits st ''sequence''"
    using b(4) by (simp add: structure_stage_def encode_structure_block_def)
  show "request.truncate (fst (structure_stage e now mc st)) = request.truncate st"
    using b(5) by (simp add: structure_stage_def encode_structure_block_def)
qed

lemma finish_encode_keeps [simp]:
  "vectors (finish_encode st) = vectors st" "cache_hits (finish_encode st) = cache_hits st"
  by (simp_all add: finish_encode_def Let_def split_beta)

lemma node_encode_Inr:
  assumes run: "node_encode e now mc st = (Inr st', mc')"
  obtains s1 m1 s2 m2 where
    "text_stage e now mc (reset_encode st) = (Inr s1, m1)"
    "sequence_stage e now m1 s1 = (Inr s2, m2)"
    "st' = finish_encode (fst (structure_stage e now (snd (image_stage e now m2 s2))
                                 (fst (image_stage e now m2 s2))))"
    "mc' = snd (structure_stage e now (snd (image_stage e now m2 s2)) (fst (image_stage e now m2 s2)))"
proof -
  obtain r1 m1 where t: "text_stage e now mc (reset_encode st) = (r1, m1)"
    by (cases "text_stage e now mc (reset_encode st)")
  from run t obtain s1 where r1: "r1 = Inr s1"
    by (cases r1) (auto simp: node_encode_def)
  obtain r2 m2 where q: "sequence_stage e now m1 s1 = (r2, m2)"
    by (cases "sequence_stage e now m1 s1")
  from run t r1 q obtain s2 where r2: "r2 = Inr s2"
    by (cases r2) (auto simp: node_encode_def)
  from run t r1 q r2 have
    "st' = finish_encode (fst (structure_stage e now (snd (image_stage e now m2 s2))
                                 (fst (image_stage e now m2 s2))))"
    "mc' = snd (structure_stage e now (snd (image_stage e now m2 s2)) (fst (image_stage e now m2 s2)))"
    by (auto simp: node_encode_def Let_def split_beta)
  with t r1 q r2 that show ?thesis by blast
qed

lemma reset_encode_truncate [simp]: "request.truncate (reset_encode st) = request.truncate st"
  by (simp add: reset_encode_def request.truncate_def)

lemma sequence_stage_block:
  assumes "input_sequence st = Some s" "length s > 10"
  shows "sequence_stage e now mc st = encode_sequence_block e now mc st s"
  using assms by (simp add: sequence_stage_def detect_has_sequence_def py_str_def)

text \<open>After a run of Stage 1 on a request with a sequence, the sequence's entry is recent.\<close>

lemma node_encode_stores_sequence:
  assumes wf: "emb_wf (embeddings mc)"
    and sq: "input_sequence st = Some s" "length s > 10"
    and run: "node_encode e now mc st = (Inr st', mc')"
  shows "\<exists>entry. recent (embeddings mc') (''emb:'' @ ''seq:'' @ hash16 e (take 100 s)) entry 4 \<and>
           vectors st' ''sequence'' = Some (emb_vector entry) \<and> emb_wf (embeddings mc')"
proof -
  from run obtain s1 m1 s2 m2 where
    t: "text_stage e now mc (reset_encode st) = (Inr s1, m1)"
    and q: "sequence_stage e now m1 s1 = (Inr s2, m2)"
    and st': "st' = finish_encode (fst (structure_stage e now (snd (image_stage e now m2 s2))
                                 (fst (image_stage e now m2 s2))))"
    and mc': "mc' = snd (structure_stage e now (snd (image_stage e now m2 s2)) (fst (image_stage e now m2 s2)))"
    by (rule node_encode_Inr)
  have w1: "emb_wf (embeddings m1)" using text_stage_keeps(1)[OF wf, of e now "reset_encode st"] t by simp
  have "request.truncate s1 = request.truncate st"
    using text_stage_keeps(2)[OF wf, of e now "reset_encode st" s1] t by simp
  then have "input_sequence s1 = Some s" using sq(1) truncate_eq_fields by metis
  with q sq(2) have b: "encode_sequence_block e now m1 s1 s = (Inr s2, m2)"
    by (simp add: sequence_stage_block)
  from sequence_block_stores[OF w1 b] obtain entry where
    r2: "recent (embeddings m2) (''emb:'' @ ''seq:'' @ hash16 e (take 100 s)) entry 0"
    and v2: "vectors s2 ''sequence'' = Some (emb_vector entry)" and w2: "emb_wf (embeddings m2)"
    by blast
  have n0: "(0::nat) \<le> 4" and n2: "(2::nat) \<le> 4" by simp_all
  note i = image_stage_keeps[OF w2 r2 n0, of e now s2]
  have r3: "recent (embeddings (snd (image_stage e now m2 s2)))
      (''emb:'' @ ''seq:'' @ hash16 e (take 100 s)) entry 2"
    by (rule recent_mono[OF i(2)]) simp
  have w3: "emb_wf (embeddings (snd (image_stage e now m2 s2)))" using i(1) by simp
  note u = structure_stage_keeps[OF w3 r3 n2, of e now "fst (image_stage e now m2 s2)"]
  have "recent (embeddings mc') (''emb:'' @ ''seq:'' @ hash16 e (take 100 s)) entry 4"
    using u(2) by (simp add: mc')
  moreover have "vectors st' ''sequence'' = Some (emb_vector entry)"
    using u(3) i(3) v2 by (simp add: st')
  moreover have "emb_wf (embeddings mc')" using u(1) by (simp add: mc')
  ultimately show ?thesis by blast
qed

text \<open>A run of Stage 1 that finds the sequence's entry among the recent ones uses it.\<close>

lemma node_encode_uses_sequence:
  assumes wf: "emb_wf (embeddings mc)"
    and sq: "input_sequence st = Some s" "length s > 10"
    and r: "recent (embeddings mc) (''emb:'' @ ''seq:'' @ hash16 e (take 100 s)) entry 4"
    and run: "node_encode e now mc st = (Inr st', mc')"
  shows "vectors st' ''sequence'' = Some (emb_vector entry) \<and> cache_hits st' ''sequence'' = Some True"
proof -
  from run obtain s1 m1 s2 m2 where
    t: "text_stage e now mc (reset_encode st) = (Inr s1, m1)"
    and q: "sequence_stage e now m1 s1 = (Inr s2, m2)"
    and st': "st' = finish_encode (fst (structure_stage e now (snd (image_stage e now m2 s2))
                                 (fst (image_stage e now m2 s2))))"
    by (rule node_encode_Inr)
  have w1: "emb_wf (embeddings m1)" using text_stage_keeps(1)[OF wf, of e now "reset_encode st"] t by simp
  have r1: "recent (embeddings m1) (''emb:'' @ ''seq:'' @ hash16 e (take 100 s)) entry 6"
    using text_stage_keeps(3)[OF wf r, of e now "reset_encode st"] t by simp
  have "request.truncate s1 = request.truncate st"
    using text_stage_keeps(2)[OF wf, of e now "reset_encode st" s1] t by simp
  then have "input_sequence s1 = Some s" using sq(1) truncate_eq_fields by metis
  with q sq(2) have b: "encode_sequence_block e now m1 s1 s = (Inr s2, m2)"
    by (simp add: sequence_stage_block)
  from sequence_block_hit[OF w1 r1, of now s1] b
  have s2: "s2 = s1\<lparr>vectors := (vectors s1)(''sequence'' \<mapsto> emb_vector entry),
                    cache_hits := (cache_hits s1)(''sequence'' \<mapsto> True)\<rparr>"
    and "emb_wf (embeddings m1)" using w1 by auto
  from sequence_block_stores[OF w1 b] obtain entry' where
    r2: "recent (embeddings m2) (''emb:'' @ ''seq:'' @ hash16 e (take 100 s)) entry' 0"
    and w2: "emb_wf (embeddings m2)" by blast
  have n0: "(0::nat) \<le> 4" and n2: "(2::nat) \<le> 4" by simp_all
  note i = image_stage_keeps[OF w2 r2 n0, of e now s2]
  have r3: "recent (embeddings (snd (image_stage e now m2 s2)))
      (''emb:'' @ ''seq:'' @ hash16 e (take 100 s)) entry' 2"
    by (rule recent_mono[OF i(2)]) simp
  have w3: "emb_wf (embeddings (snd (image_stage e now m2 s2)))" using i(1) by simp
  note u = structure_stage_keeps[OF w3 r3 n2, of e now "fst (image_stage e now m2 s2)"]
  show ?thesis
    using u(3,4) i(3,4) by (simp add: st' s2)
qed


text \<open>
  Claim C10.  The cache key of a sequence is made from its first 100 characters.  Of two
  requests whose sequences (longer than 10) agree on their first 100 characters, when
  Stage 1 has run for the first and then runs for the second on the cache the first
  left, the second gets the vector that the first got, as a cache hit: its own sequence
  is not encoded.  The embeddings cache is as its constructor makes it and every
  operation keeps it (\<open>emb_wf\<close>).
\<close>

theorem sequence_cache_key_first_100:
  assumes "emb_wf (embeddings mc0)"
    and "input_sequence st_a = Some s_a" and "length s_a > 10"
    and "input_sequence st_b = Some s_b" and "length s_b > 10"
    and "take 100 s_a = take 100 s_b"
    and "node_encode e t_a mc0 st_a = (Inr st_a', mc1)"
    and "node_encode e t_b mc1 st_b = (Inr st_b', mc2)"
  shows "vectors st_b' ''sequence'' = vectors st_a' ''sequence'' \<and>
         vectors st_a' ''sequence'' \<noteq> None \<and>
         cache_hits st_b' ''sequence'' = Some True"
proof -
  from node_encode_stores_sequence[OF assms(1,2,3,7)] obtain entry where
    r: "recent (embeddings mc1) (''emb:'' @ ''seq:'' @ hash16 e (take 100 s_a)) entry 4"
    and v: "vectors st_a' ''sequence'' = Some (emb_vector entry)"
    and w: "emb_wf (embeddings mc1)" by blast
  from r assms(6) have
    "recent (embeddings mc1) (''emb:'' @ ''seq:'' @ hash16 e (take 100 s_b)) entry 4" by simp
  from node_encode_uses_sequence[OF w assms(4,5) this assms(8)] v show ?thesis by simp
qed

lemma init_wf: "emb_wf (embeddings (MultiLevelCache_init :: emb_entry multi_level_cache))"
  by (simp add: emb_wf_def MultiLevelCache_init_def LRUCache_init_def od_keys_def)

lemma fixture_sequences:
  "length fixture_sequence_a > 10" "length fixture_sequence_b > 10"
  "take 100 fixture_sequence_a = take 100 fixture_sequence_b"
  "fixture_sequence_a \<noteq> fixture_sequence_b"
  "encode_sequence fixture_env fixture_sequence_a = Inr (unit_vector 2)"
  "encode_sequence fixture_env fixture_sequence_b = Inr (unit_vector 5)"
  by (simp_all add: fixture_sequence_a_def fixture_sequence_b_def fixture_env_def)

lemma sequence_only_runs:
  assumes wf: "emb_wf (embeddings mc)" and ok: "encode_sequence e s = Inr v"
    and l: "length s > 10"
  shows "\<exists>st' mc'. node_encode e now mc (create_initial_state (sequence_request s)) = (Inr st', mc')"
proof -
  let ?st = "create_initial_state (sequence_request s)"
  have f: "input_text ?st = None" "input_sequence ?st = Some s" "input_image_path ?st = None"
    "input_structure_path ?st = None"
    by (simp_all add: create_initial_state_def sequence_request_def)
  have t: "text_stage e now mc (reset_encode ?st) = (Inr (reset_encode ?st), mc)"
    by (simp add: text_stage_def detect_has_text_def nonblank_def f reset_encode_def)
  have sq: "input_sequence (reset_encode ?st) = Some s" by (simp add: reset_encode_def f)
  have m: "0 < max_size (snd (LRUCache_get (embeddings mc) now
       (''emb:'' @ ''seq:'' @ hash16 e (take 100 s))))"
    using wf_get[OF wf, of now "''emb:'' @ ''seq:'' @ hash16 e (take 100 s)"]
    by (simp add: emb_wf_def)
  have "\<exists>s2 m2. encode_sequence_block e now mc (reset_encode ?st) s = (Inr s2, m2)"
    using ok set_ok[OF m]
    by (auto simp: encode_sequence_block_def Let_def split_beta get_embedding_eq set_embedding_eq
        split: option.splits)
  then obtain s2 m2 where "sequence_stage e now mc (reset_encode ?st) = (Inr s2, m2)"
    using sq l by (auto simp: sequence_stage_block)
  with t show ?thesis
    by (simp add: node_encode_def Let_def split_beta)
qed

theorem sequence_cache_key_first_100_witness:
  "\<exists>st_a' mc1 st_b' mc2.
     node_encode fixture_env 0 MultiLevelCache_init
       (create_initial_state (sequence_request fixture_sequence_a)) = (Inr st_a', mc1) \<and>
     node_encode fixture_env 1 mc1
       (create_initial_state (sequence_request fixture_sequence_b)) = (Inr st_b', mc2) \<and>
     fixture_sequence_a \<noteq> fixture_sequence_b \<and>
     encode_sequence fixture_env fixture_sequence_b = Inr (unit_vector 5) \<and>
     vectors st_a' ''sequence'' = Some (unit_vector 2) \<and>
     vectors st_b' ''sequence'' = Some (unit_vector 2) \<and>
     cache_hits st_b' ''sequence'' = Some True"
proof -
  let ?sa = "create_initial_state (sequence_request fixture_sequence_a)"
  let ?sb = "create_initial_state (sequence_request fixture_sequence_b)"
  from sequence_only_runs[OF init_wf fixture_sequences(5) fixture_sequences(1), of 0]
  obtain st_a' mc1 where a: "node_encode fixture_env 0 MultiLevelCache_init ?sa = (Inr st_a', mc1)"
    by blast
  have ia: "input_sequence ?sa = Some fixture_sequence_a"
    and ib: "input_sequence ?sb = Some fixture_sequence_b"
    by (simp_all add: create_initial_state_def sequence_request_def)
  from node_encode_stores_sequence[OF init_wf ia fixture_sequences(1) a]
  have w1: "emb_wf (embeddings mc1)" by blast
  from sequence_only_runs[OF w1 fixture_sequences(6) fixture_sequences(2), of 1]
  obtain st_b' mc2 where b: "node_encode fixture_env 1 mc1 ?sb = (Inr st_b', mc2)" by blast
  have va: "vectors st_a' ''sequence'' = Some (unit_vector 2)"
  proof -
    have "node_encode fixture_env 0 MultiLevelCache_init ?sa =
        (Inr st_a', mc1) \<longrightarrow> vectors st_a' ''sequence'' = Some (unit_vector 2)"
      by (auto simp: node_encode_def text_stage_def sequence_stage_def image_stage_def
          structure_stage_def detect_has_text_def detect_has_sequence_def detect_has_image_def
          detect_has_structure_def nonblank_def truthy_def py_str_def reset_encode_def
          create_initial_state_def sequence_request_def encode_sequence_block_def
          get_embedding_def MultiLevelCache_get_def LRUCache_get_def MultiLevelCache_init_def
          LRUCache_init_def get_cache_level_def put_cache_level_def od_keys_def Let_def split_beta
          fixture_sequences(1,5) request.truncate_def
          split: option.splits sum.splits)
    with a show ?thesis by simp
  qed
  from sequence_cache_key_first_100[OF init_wf ia fixture_sequences(1) ib fixture_sequences(2)
      fixture_sequences(3) a b] va a b fixture_sequences(4,6)
  show ?thesis by auto
qed

end
